theory Spec2Isabelle
  imports Main
begin

section \<open>Syntax trees\<close>

text \<open>
  The analyser works on the syntax tree that \<^verbatim>\<open>ts-morph\<close> builds for a TypeScript file.
  Only the node kinds that the analyser tells apart are kept. Every node carries its
  source text (what \<^verbatim>\<open>getText()\<close> returns), because the cycle guards are keyed by that
  text; the text of an identifier is its name. A function-like node carries its
  parameters and the text of its return type (what
  \<^verbatim>\<open>getReturnType().getText()\<close> returns).
\<close>

datatype ParameterDeclaration =
  Parameter (parameterText: string) (typeNodeText: "string option")

datatype node =
    ObjectLiteralExpression string "element list"
  | Identifier string
  | CallExpression string node "node list"
  | PropertyAccessExpression string node string
  | ArrowFunction string "ParameterDeclaration list" string
  | FunctionExpression string "ParameterDeclaration list" string
  | OtherExpression string
and element =
    MethodDeclaration string "ParameterDeclaration list" string
  | PropertyAssignment string "node option"
  | ShorthandPropertyAssignment string
  | SpreadAssignment node
  | GetAccessorDeclaration string
  | SetAccessorDeclaration string

fun getText :: "node \<Rightarrow> string" where
  "getText (ObjectLiteralExpression t _) = t"
| "getText (Identifier n) = n"
| "getText (CallExpression t _ _) = t"
| "getText (PropertyAccessExpression t _ _) = t"
| "getText (ArrowFunction t _ _) = t"
| "getText (FunctionExpression t _ _) = t"
| "getText (OtherExpression t) = t"

fun isObjectLiteralExpression :: "node \<Rightarrow> bool" where
  "isObjectLiteralExpression (ObjectLiteralExpression _ _) = True"
| "isObjectLiteralExpression _ = False"

fun getProperties :: "node \<Rightarrow> element list" where
  "getProperties (ObjectLiteralExpression _ props) = props"
| "getProperties _ = []"

text \<open>The name of an object-literal member; a spread has none.\<close>

fun getName :: "element \<Rightarrow> string option" where
  "getName (MethodDeclaration n _ _) = Some n"
| "getName (PropertyAssignment n _) = Some n"
| "getName (ShorthandPropertyAssignment n) = Some n"
| "getName (SpreadAssignment _) = None"
| "getName (GetAccessorDeclaration n) = Some n"
| "getName (SetAccessorDeclaration n) = Some n"

section \<open>Route extraction\<close>

text \<open>The field \<^verbatim>\<open>file\<close> is written \<open>file'\<close> here.\<close>

record RouteInfo =
  path :: string
  file' :: string
  paramText :: string
  returnType :: string

definition isQuote :: "char \<Rightarrow> bool" where
  "isQuote c = (c = CHR 0x27 \<or> c = CHR 0x22)"

text \<open>
  \<^verbatim>\<open>routePath.replace(/^['"]|['"]$/g, '')\<close>: the global replace first drops a quote
  character at the start of the string, then, in what is left, a quote character at
  the end.
\<close>

definition stripQuotes :: "string \<Rightarrow> string" where
  "stripQuotes s =
     (let s1 = (case s of [] \<Rightarrow> [] | c # cs \<Rightarrow> if isQuote c then cs else s)
      in if s1 \<noteq> [] \<and> isQuote (last s1) then butlast s1 else s1)"

text \<open>The tail of the \<^verbatim>\<open>forEach\<close> callback, once a path and a function node are known.\<close>

definition routeInfo ::
  "string \<Rightarrow> string \<Rightarrow> ParameterDeclaration list \<Rightarrow> string \<Rightarrow> RouteInfo" where
  "routeInfo routePath filePath params rt =
     \<lparr> path = stripQuotes routePath,
       file' = filePath,
       paramText = (case params of [] \<Rightarrow> [] | p # _ \<Rightarrow> parameterText p),
       returnType = rt \<rparr>"

text \<open>
  The \<^verbatim>\<open>forEach\<close> callback of \<^verbatim>\<open>extractRoutesFromObjectLiteral\<close>: \<open>None\<close> is a
  \<^verbatim>\<open>return\<close> before the \<^verbatim>\<open>push\<close>.
\<close>

fun forEachProperty :: "string \<Rightarrow> element \<Rightarrow> RouteInfo option" where
  "forEachProperty filePath (MethodDeclaration n ps rt) = Some (routeInfo n filePath ps rt)"
| "forEachProperty filePath (PropertyAssignment n initializer) =
     (case initializer of
        Some (ArrowFunction _ ps rt) \<Rightarrow> Some (routeInfo n filePath ps rt)
      | Some (FunctionExpression _ ps rt) \<Rightarrow> Some (routeInfo n filePath ps rt)
      | _ \<Rightarrow> None)"
| "forEachProperty filePath (SpreadAssignment _) = None"
| "forEachProperty filePath _ = None"

definition pushRoute :: "string \<Rightarrow> RouteInfo list \<Rightarrow> element \<Rightarrow> RouteInfo list" where
  "pushRoute filePath fileRoutes prop =
     (case forEachProperty filePath prop of
        None \<Rightarrow> fileRoutes
      | Some info \<Rightarrow> fileRoutes @ [info])"

definition extractRoutesFromObjectLiteral :: "node \<Rightarrow> string \<Rightarrow> RouteInfo list" where
  "extractRoutesFromObjectLiteral objLiteral filePath =
     (case objLiteral of
        ObjectLiteralExpression _ props \<Rightarrow> foldl (pushRoute filePath) [] props
      | _ \<Rightarrow> [])"

subsection \<open>What the specification calls a route property\<close>

text \<open>
  A member of an object literal declares a route when it is a method-shorthand or a
  key/value property whose value is an arrow function or a function expression.
\<close>

fun isFunctionValued :: "node \<Rightarrow> bool" where
  "isFunctionValued (ArrowFunction _ _ _) = True"
| "isFunctionValued (FunctionExpression _ _ _) = True"
| "isFunctionValued _ = False"

fun isRouteProperty :: "element \<Rightarrow> bool" where
  "isRouteProperty (MethodDeclaration _ _ _) = True"
| "isRouteProperty (PropertyAssignment _ (Some v)) = isFunctionValued v"
| "isRouteProperty _ = False"

text \<open>The parameters and the return type of the handler of a route property.\<close>

fun handlerParameters :: "element \<Rightarrow> ParameterDeclaration list" where
  "handlerParameters (MethodDeclaration _ ps _) = ps"
| "handlerParameters (PropertyAssignment _ (Some (ArrowFunction _ ps _))) = ps"
| "handlerParameters (PropertyAssignment _ (Some (FunctionExpression _ ps _))) = ps"
| "handlerParameters _ = []"

fun handlerReturnType :: "element \<Rightarrow> string" where
  "handlerReturnType (MethodDeclaration _ _ rt) = rt"
| "handlerReturnType (PropertyAssignment _ (Some (ArrowFunction _ _ rt))) = rt"
| "handlerReturnType (PropertyAssignment _ (Some (FunctionExpression _ _ rt))) = rt"
| "handlerReturnType _ = []"

definition nameText :: "element \<Rightarrow> string" where
  "nameText p = (case getName p of None \<Rightarrow> [] | Some n \<Rightarrow> n)"

definition routeOf :: "string \<Rightarrow> element \<Rightarrow> RouteInfo" where
  "routeOf filePath p =
     \<lparr> path = stripQuotes (nameText p),
       file' = filePath,
       paramText = (case handlerParameters p of [] \<Rightarrow> [] | q # _ \<Rightarrow> parameterText q),
       returnType = handlerReturnType p \<rparr>"

section \<open>The source file\<close>

text \<open>
  What the resolver asks of the file under scan: its top-level variable declarations
  (name and initializer, if any) and its function declarations (name, if any, and the
  expressions of the \<^verbatim>\<open>return\<close> statements in the body, in document order; a bare
  \<^verbatim>\<open>return\<close> has no expression).
\<close>

datatype VariableDeclaration =
  VariableDeclaration (declarationName: string) (getInitializer: "node option")

datatype FunctionDeclaration =
  FunctionDeclaration (functionName: "string option") (returnStatements: "node option list")

record SourceFile =
  getVariableDeclarations :: "VariableDeclaration list"
  getFunctions :: "FunctionDeclaration list"

section \<open>Expression resolver\<close>

text \<open>
  The resolver threads one mutable set of visited node texts through all its calls, so
  every function takes the set and returns it with its result. The mutual recursion of
  the source is unrolled over a counter: \<open>resolveNodeRecursively\<close> consumes one unit per
  call, and \<open>None\<close> as an outcome means that the counter ran out (it says nothing about
  the program). An outcome \<open>Some (r, visited)\<close> is a return of the source: \<open>r = None\<close> is
  \<^verbatim>\<open>undefined\<close>. The source throws nowhere, so there is no error outcome. The functions
  that call \<^verbatim>\<open>resolveNodeRecursively\<close> take it, with what is left of the counter, as
  their first argument \<open>rec\<close>.
\<close>

type_synonym visited = "string set"
type_synonym outcome = "(node option \<times> visited) option"
type_synonym resolver = "node \<Rightarrow> visited \<Rightarrow> outcome"

text \<open>
  The first loop of \<^verbatim>\<open>resolveIdentifier\<close> returns from inside its body at the first
  declaration that has the name and an initializer; this is that initializer.
\<close>

fun forVariableDeclarations :: "string \<Rightarrow> VariableDeclaration list \<Rightarrow> node option" where
  "forVariableDeclarations varName [] = None"
| "forVariableDeclarations varName (declaration # rest) =
     (if declarationName declaration = varName
      then (case getInitializer declaration of
              Some initializer \<Rightarrow> Some initializer
            | None \<Rightarrow> forVariableDeclarations varName rest)
      else forVariableDeclarations varName rest)"

text \<open>
  The loop over the return statements of one function: it returns the first truthy
  resolution; \<open>Some (None, visited)\<close> is the loop running to its end.
\<close>

fun forReturnStatements :: "resolver \<Rightarrow> node option list \<Rightarrow> visited \<Rightarrow> outcome" where
  "forReturnStatements rec [] visited = Some (None, visited)"
| "forReturnStatements rec (returnStmt # rest) visited =
     (case returnStmt of
        None \<Rightarrow> forReturnStatements rec rest visited
      | Some returnExpr \<Rightarrow>
          (case rec returnExpr visited of
             None \<Rightarrow> None
           | Some (Some resolved, visited') \<Rightarrow> Some (Some resolved, visited')
           | Some (None, visited') \<Rightarrow> forReturnStatements rec rest visited'))"

fun forFunctionDeclarations ::
  "resolver \<Rightarrow> string \<Rightarrow> FunctionDeclaration list \<Rightarrow> visited \<Rightarrow> outcome" where
  "forFunctionDeclarations rec funcName [] visited = Some (None, visited)"
| "forFunctionDeclarations rec funcName (func # rest) visited =
     (if functionName func = Some funcName
      then (case forReturnStatements rec (returnStatements func) visited of
              None \<Rightarrow> None
            | Some (Some resolved, visited') \<Rightarrow> Some (Some resolved, visited')
            | Some (None, visited') \<Rightarrow> forFunctionDeclarations rec funcName rest visited')
      else forFunctionDeclarations rec funcName rest visited)"

definition resolveIdentifier :: "resolver \<Rightarrow> SourceFile \<Rightarrow> node \<Rightarrow> visited \<Rightarrow> outcome" where
  "resolveIdentifier rec sourceFile identifier visited =
     (case identifier of
        Identifier varName \<Rightarrow>
          (case forVariableDeclarations varName (getVariableDeclarations sourceFile) of
             Some initializer \<Rightarrow> rec initializer visited
           | None \<Rightarrow> forFunctionDeclarations rec varName (getFunctions sourceFile) visited)
      | _ \<Rightarrow> Some (None, visited))"

text \<open>
  The first block of \<^verbatim>\<open>resolveFunctionCall\<close>: the argument it resolves and returns, if
  it returns.
\<close>

definition knownWrapperArgument :: "node \<Rightarrow> node list \<Rightarrow> node option" where
  "knownWrapperArgument expression args =
     (case expression of
        Identifier funcName \<Rightarrow>
          if funcName = ''defineMessageRoutes'' \<or> funcName = ''Object.assign''
             \<or> funcName = ''merge''
          then (case args of [] \<Rightarrow> None | arg0 # _ \<Rightarrow> Some arg0)
          else None
      | _ \<Rightarrow> None)"

definition resolveFunctionCall :: "resolver \<Rightarrow> SourceFile \<Rightarrow> node \<Rightarrow> visited \<Rightarrow> outcome" where
  "resolveFunctionCall rec sourceFile callExpr visited =
     (case callExpr of
        CallExpression _ expression args \<Rightarrow>
          (case knownWrapperArgument expression args of
             Some arg0 \<Rightarrow> rec arg0 visited
           | None \<Rightarrow>
               (case expression of
                  Identifier funcName \<Rightarrow>
                    forFunctionDeclarations rec funcName (getFunctions sourceFile) visited
                | _ \<Rightarrow> Some (None, visited)))
      | _ \<Rightarrow> Some (None, visited))"

text \<open>
  \<^verbatim>\<open>getProperty(name)\<close> of an object literal: the first member that has a name, and
  that name.
\<close>

definition getProperty :: "element list \<Rightarrow> string \<Rightarrow> element option" where
  "getProperty props propertyName = find (\<lambda>p. getName p = Some propertyName) props"

definition resolvePropertyAccess :: "resolver \<Rightarrow> SourceFile \<Rightarrow> node \<Rightarrow> visited \<Rightarrow> outcome" where
  "resolvePropertyAccess rec sourceFile propAccess visited =
     (case propAccess of
        PropertyAccessExpression _ object propertyName \<Rightarrow>
          (case rec object visited of
             None \<Rightarrow> None
           | Some (resolvedObject, visited') \<Rightarrow>
               (case resolvedObject of
                  Some (ObjectLiteralExpression _ props) \<Rightarrow>
                    (case getProperty props propertyName of
                       Some (PropertyAssignment _ (Some initializer)) \<Rightarrow> rec initializer visited'
                     | _ \<Rightarrow> Some (None, visited'))
                | _ \<Rightarrow> Some (None, visited')))
      | _ \<Rightarrow> Some (None, visited))"

text \<open>
  The body shared by \<^verbatim>\<open>resolveNodeRecursively\<close> and by the inner \<^verbatim>\<open>resolve\<close> of
  \<^verbatim>\<open>resolveVariableToObjectLiteral\<close>, which are the same text in the source: the
  guard on the visited set, then the dispatch on the kind of the node.
\<close>

definition dispatch :: "resolver \<Rightarrow> SourceFile \<Rightarrow> node \<Rightarrow> visited \<Rightarrow> outcome" where
  "dispatch rec sourceFile current visited =
     (let nodeText = getText current in
      if nodeText \<in> visited then Some (None, visited)
      else
        (let visited' = insert nodeText visited in
         case current of
           ObjectLiteralExpression _ _ \<Rightarrow> Some (Some current, visited')
         | Identifier _ \<Rightarrow> resolveIdentifier rec sourceFile current visited'
         | CallExpression _ _ _ \<Rightarrow> resolveFunctionCall rec sourceFile current visited'
         | PropertyAccessExpression _ _ _ \<Rightarrow> resolvePropertyAccess rec sourceFile current visited'
         | _ \<Rightarrow> Some (None, visited')))"

primrec resolveNodeRecursively :: "nat \<Rightarrow> SourceFile \<Rightarrow> node \<Rightarrow> visited \<Rightarrow> outcome" where
  "resolveNodeRecursively 0 sourceFile node visited = None"
| "resolveNodeRecursively (Suc fuel) sourceFile node visited =
     dispatch (resolveNodeRecursively fuel sourceFile) sourceFile node visited"

definition resolve :: "nat \<Rightarrow> SourceFile \<Rightarrow> node \<Rightarrow> visited \<Rightarrow> outcome" where
  "resolve fuel sourceFile current visited =
     dispatch (resolveNodeRecursively fuel sourceFile) sourceFile current visited"

subsection \<open>The expressions a resolution can reach\<close>

text \<open>
  The expressions below a node that the resolver and the aggregator can step to: the
  callee and the arguments of a call, the object of a property access, and the
  initializers and spread expressions of an object literal.
\<close>

fun subexpressions :: "node \<Rightarrow> node list"
  and elementExpressions :: "element \<Rightarrow> node list" where
  "subexpressions (ObjectLiteralExpression t props) =
     ObjectLiteralExpression t props # concat (map elementExpressions props)"
| "subexpressions (CallExpression t expression args) =
     CallExpression t expression args # subexpressions expression @ concat (map subexpressions args)"
| "subexpressions (PropertyAccessExpression t object n) =
     PropertyAccessExpression t object n # subexpressions object"
| "subexpressions (Identifier n) = [Identifier n]"
| "subexpressions (ArrowFunction t ps rt) = [ArrowFunction t ps rt]"
| "subexpressions (FunctionExpression t ps rt) = [FunctionExpression t ps rt]"
| "subexpressions (OtherExpression t) = [OtherExpression t]"
| "elementExpressions (PropertyAssignment n (Some initializer)) = subexpressions initializer"
| "elementExpressions (PropertyAssignment n None) = []"
| "elementExpressions (SpreadAssignment expression) = subexpressions expression"
| "elementExpressions (MethodDeclaration n ps rt) = []"
| "elementExpressions (ShorthandPropertyAssignment n) = []"
| "elementExpressions (GetAccessorDeclaration n) = []"
| "elementExpressions (SetAccessorDeclaration n) = []"

definition declaredExpressions :: "SourceFile \<Rightarrow> node list" where
  "declaredExpressions sourceFile =
     concat (map (\<lambda>d. case getInitializer d of None \<Rightarrow> [] | Some i \<Rightarrow> [i])
               (getVariableDeclarations sourceFile))
     @ concat (map (\<lambda>f. concat (map (\<lambda>r. case r of None \<Rightarrow> [] | Some e \<Rightarrow> [e])
                                   (returnStatements f)))
                 (getFunctions sourceFile))"

definition reachable :: "node \<Rightarrow> SourceFile \<Rightarrow> node list" where
  "reachable node sourceFile =
     subexpressions node @ concat (map subexpressions (declaredExpressions sourceFile))"

text \<open>
  Every call of \<open>resolveNodeRecursively\<close> that gets past its guard adds the text of a
  reachable expression to the visited set, so one unit of the counter per reachable
  expression is enough: with that much the counter never runs out (lemma
  \<open>resolveVariableToObjectLiteral_fuel\<close> below), so \<open>the\<close> is applied to a return of
  \<^verbatim>\<open>resolve\<close> and \<^verbatim>\<open>resolveVariableToObjectLiteral\<close> is a total function.
\<close>

definition resolveFuel :: "node \<Rightarrow> SourceFile \<Rightarrow> nat" where
  "resolveFuel node sourceFile = length (reachable node sourceFile)"

definition resolveVariableToObjectLiteral :: "node \<Rightarrow> SourceFile \<Rightarrow> node option" where
  "resolveVariableToObjectLiteral node sourceFile =
     fst (the (resolve (resolveFuel node sourceFile) sourceFile node {}))"

section \<open>Spread-aware aggregation\<close>

text \<open>
  \<^verbatim>\<open>extractRoutesWithSpreads\<close> keeps two mutable variables, the list \<^verbatim>\<open>allRoutes\<close> and
  its own set of visited object-literal texts; the inner \<^verbatim>\<open>extractFromObject\<close> reads and
  writes both, so the model passes them as a pair and returns the pair. Its recursion is
  unrolled over a counter as the resolver's is: \<open>None\<close> means that the counter ran out.
\<close>

type_synonym aggregation = "visited \<times> RouteInfo list"
type_synonym extraction = "node \<Rightarrow> aggregation \<Rightarrow> aggregation option"

text \<open>The \<^verbatim>\<open>forEach\<close> over the members of the literal, which acts on spreads only.\<close>

fun forEachSpread :: "extraction \<Rightarrow> SourceFile \<Rightarrow> element list \<Rightarrow> aggregation \<Rightarrow> aggregation option" where
  "forEachSpread rec sourceFile [] state = Some state"
| "forEachSpread rec sourceFile (prop # rest) state =
     (case prop of
        SpreadAssignment spreadExpr \<Rightarrow>
          (case resolveVariableToObjectLiteral spreadExpr sourceFile of
             Some resolved \<Rightarrow>
               (case rec resolved state of
                  None \<Rightarrow> None
                | Some state' \<Rightarrow> forEachSpread rec sourceFile rest state')
           | None \<Rightarrow> forEachSpread rec sourceFile rest state)
      | _ \<Rightarrow> forEachSpread rec sourceFile rest state)"

primrec extractFromObject ::
  "nat \<Rightarrow> SourceFile \<Rightarrow> string \<Rightarrow> node \<Rightarrow> aggregation \<Rightarrow> aggregation option" where
  "extractFromObject 0 sourceFile filePath obj state = None"
| "extractFromObject (Suc fuel) sourceFile filePath obj state =
     (case obj of
        ObjectLiteralExpression text props \<Rightarrow>
          if text \<in> fst state then Some state
          else
            (case forEachSpread (extractFromObject fuel sourceFile filePath) sourceFile props
                    (insert text (fst state), snd state) of
               None \<Rightarrow> None
             | Some (visited', allRoutes') \<Rightarrow>
                 Some (visited', allRoutes' @ extractRoutesFromObjectLiteral obj filePath))
      | _ \<Rightarrow> Some state)"

text \<open>
  Every call of \<open>extractFromObject\<close> that gets past its guard adds the text of a
  reachable object literal to the visited set, so one unit more than there are
  reachable expressions is enough: with that much the counter never runs out (lemma
  \<open>extractRoutesWithSpreads_fuel\<close> below).
\<close>

definition extractFuel :: "node \<Rightarrow> SourceFile \<Rightarrow> nat" where
  "extractFuel objLiteral sourceFile = Suc (length (reachable objLiteral sourceFile))"

definition extractRoutesWithSpreads :: "node \<Rightarrow> SourceFile \<Rightarrow> string \<Rightarrow> RouteInfo list" where
  "extractRoutesWithSpreads objLiteral sourceFile filePath =
     (if \<not> isObjectLiteralExpression objLiteral then []
      else snd (the (extractFromObject (extractFuel objLiteral sourceFile) sourceFile filePath
                       objLiteral ({}, []))))"

subsection \<open>The aggregation as the specification words it\<close>

text \<open>
  Section 4.3 of the specification, as a function that returns the routes of a literal
  instead of appending to a shared list: nothing for a literal whose text was visited;
  otherwise, for each spread entry in source order, the routes of the literal it resolves
  to (flattened the same way, depth first), and after all of them the literal's own
  routes.
\<close>

fun spreadRoutes ::
  "(node \<Rightarrow> visited \<Rightarrow> (visited \<times> RouteInfo list) option) \<Rightarrow> SourceFile \<Rightarrow> element list
     \<Rightarrow> visited \<Rightarrow> (visited \<times> RouteInfo list) option" where
  "spreadRoutes flat sourceFile [] visited = Some (visited, [])"
| "spreadRoutes flat sourceFile (SpreadAssignment e # rest) visited =
     (case resolveVariableToObjectLiteral e sourceFile of
        None \<Rightarrow> spreadRoutes flat sourceFile rest visited
      | Some resolved \<Rightarrow>
          (case flat resolved visited of
             None \<Rightarrow> None
           | Some (visited1, routes1) \<Rightarrow>
               (case spreadRoutes flat sourceFile rest visited1 of
                  None \<Rightarrow> None
                | Some (visited2, routes2) \<Rightarrow> Some (visited2, routes1 @ routes2))))"
| "spreadRoutes flat sourceFile (_ # rest) visited = spreadRoutes flat sourceFile rest visited"

primrec flattenedRoutes ::
  "nat \<Rightarrow> SourceFile \<Rightarrow> string \<Rightarrow> node \<Rightarrow> visited \<Rightarrow> (visited \<times> RouteInfo list) option" where
  "flattenedRoutes 0 sourceFile filePath obj visited = None"
| "flattenedRoutes (Suc fuel) sourceFile filePath obj visited =
     (case obj of
        ObjectLiteralExpression text props \<Rightarrow>
          if text \<in> visited then Some (visited, [])
          else
            (case spreadRoutes (flattenedRoutes fuel sourceFile filePath) sourceFile props
                    (insert text visited) of
               None \<Rightarrow> None
             | Some (visited', fromSpreads) \<Rightarrow>
                 Some (visited', fromSpreads @ map (routeOf filePath) (filter isRouteProperty props)))
      | _ \<Rightarrow> Some (visited, []))"

section \<open>Message responses\<close>

text \<open>
  The runtime layer of \<^verbatim>\<open>core.ts\<close>. A JavaScript value is kept as far as its truthiness
  goes. A promise is kept as the way it settles, or as never settling. A callback
  handed in by the caller (the logger's \<^verbatim>\<open>error\<close> method, \<^verbatim>\<open>onError\<close>) either returns
  (\<open>None\<close>) or throws a value (\<open>Some e\<close>); the calls made are recorded in order.
\<close>

datatype jsval =
    JSUndefined
  | JSNull
  | JSBoolean bool
  | JSNumber int
  | JSString string
  | JSObject nat

fun truthy :: "jsval \<Rightarrow> bool" where
  "truthy JSUndefined = False"
| "truthy JSNull = False"
| "truthy (JSBoolean b) = b"
| "truthy (JSNumber n) = (n \<noteq> 0)"
| "truthy (JSString s) = (s \<noteq> [])"
| "truthy (JSObject _) = True"

text \<open>\<^verbatim>\<open>MessageResponse\<close>: an optional field that is absent reads as \<^verbatim>\<open>undefined\<close>.\<close>

record MessageResponse =
  data :: jsval
  error :: jsval

datatype 'a promise = Fulfilled 'a | Rejected jsval | Pending

type_synonym callback = "jsval \<Rightarrow> jsval option"

text \<open>
  \<^verbatim>\<open>MessageSenderOptions\<close>: of the logger only the \<^verbatim>\<open>error\<close> method is called here, so
  the field \<open>logger\<close> holds that method when a logger is given.
\<close>

record MessageSenderOptions =
  logger :: "callback option"
  onError :: "callback option"

datatype call = LoggerError jsval | OnError jsval

text \<open>The result of running a handler: the value it returns or the value it throws.\<close>

datatype 'a completion = Return 'a | Throw jsval

definition onFulfilled :: "MessageResponse \<Rightarrow> jsval completion" where
  "onFulfilled result = (if truthy (error result) then Throw (error result) else Return (data result))"

text \<open>
  An optional call \<^verbatim>\<open>f?.(arg)\<close>: nothing happens when \<^verbatim>\<open>f\<close> is absent; otherwise the
  call is recorded, and \<^verbatim>\<open>f\<close> returns or throws.
\<close>

definition optionalCall :: "callback option \<Rightarrow> call \<Rightarrow> jsval \<Rightarrow> jsval option \<times> call list" where
  "optionalCall f made arg = (case f of None \<Rightarrow> (None, []) | Some g \<Rightarrow> (g arg, [made]))"

text \<open>
  The handler given to \<^verbatim>\<open>catch\<close>: \<^verbatim>\<open>options?.logger?.error(...)\<close>, then
  \<^verbatim>\<open>options?.onError?.(error)\<close>, then \<^verbatim>\<open>return undefined\<close>; a callback that throws
  ends the handler there.
\<close>

definition onRejected :: "MessageSenderOptions option \<Rightarrow> jsval \<Rightarrow> jsval completion \<times> call list" where
  "onRejected options err =
     (let loggerError = (case options of None \<Rightarrow> None | Some opts \<Rightarrow> logger opts);
          onErrorCallback = (case options of None \<Rightarrow> None | Some opts \<Rightarrow> onError opts);
          (thrown1, calls1) = optionalCall loggerError (LoggerError err) err
      in case thrown1 of
           Some e \<Rightarrow> (Throw e, calls1)
         | None \<Rightarrow>
             (let (thrown2, calls2) = optionalCall onErrorCallback (OnError err) err
              in case thrown2 of
                   Some e \<Rightarrow> (Throw e, calls1 @ calls2)
                 | None \<Rightarrow> (Return JSUndefined, calls1 @ calls2)))"

definition settle :: "'a completion \<Rightarrow> 'a promise" where
  "settle c = (case c of Return v \<Rightarrow> Fulfilled v | Throw e \<Rightarrow> Rejected e)"

text \<open>\<^verbatim>\<open>p.then(f)\<close> for a handler without effects, \<^verbatim>\<open>p.catch(g)\<close> for one that makes calls.\<close>

definition promiseThen :: "'a promise \<Rightarrow> ('a \<Rightarrow> 'b completion) \<Rightarrow> 'b promise" where
  "promiseThen p f =
     (case p of Fulfilled v \<Rightarrow> settle (f v) | Rejected e \<Rightarrow> Rejected e | Pending \<Rightarrow> Pending)"

definition promiseCatch ::
  "'a promise \<Rightarrow> (jsval \<Rightarrow> 'a completion \<times> call list) \<Rightarrow> 'a promise \<times> call list" where
  "promiseCatch p g =
     (case p of
        Fulfilled v \<Rightarrow> (Fulfilled v, [])
      | Rejected e \<Rightarrow> (settle (fst (g e)), snd (g e))
      | Pending \<Rightarrow> (Pending, []))"

definition handleMessageResponse ::
  "MessageResponse promise \<Rightarrow> MessageSenderOptions option \<Rightarrow> jsval promise \<times> call list" where
  "handleMessageResponse response options =
     promiseCatch (promiseThen response onFulfilled) (onRejected options)"

text \<open>
  \<^verbatim>\<open>sendMessageRequest\<close>. The three \<^verbatim>\<open>chrome\<close> functions are the host's, so the model
  takes them as parameters. A host function either returns the promise of a response or
  throws synchronously (an invocation that the host refuses). The optional target is a
  number, a string or absent, as \<^verbatim>\<open>typeof target\<close> tells them apart; what a number
  and a message are is left open.
\<close>

datatype 'n target = NumberTarget 'n | StringTarget string

record ('n, 'm) chrome =
  tabsSendMessage :: "'n \<Rightarrow> 'm \<Rightarrow> MessageResponse promise completion"
  runtimeSendMessageTo :: "string \<Rightarrow> 'm \<Rightarrow> MessageResponse promise completion"
  runtimeSendMessage :: "'m \<Rightarrow> MessageResponse promise completion"

text \<open>The conditional expression that makes the host call.\<close>

definition hostSendMessage ::
  "('n, 'm) chrome \<Rightarrow> 'm \<Rightarrow> 'n target option \<Rightarrow> MessageResponse promise completion" where
  "hostSendMessage chrome message target =
     (case target of
        Some (NumberTarget n) \<Rightarrow> tabsSendMessage chrome n message
      | Some (StringTarget s) \<Rightarrow> runtimeSendMessageTo chrome s message
      | None \<Rightarrow> runtimeSendMessage chrome message)"

text \<open>
  The module variable \<^verbatim>\<open>lastError\<close> is cleared first. The function is \<^verbatim>\<open>async\<close>: when
  the host call throws, the promise it returns is rejected with what was thrown, and
  \<^verbatim>\<open>handleMessageResponse\<close> is not reached.
\<close>

definition sendMessageRequest ::
  "('n, 'm) chrome \<Rightarrow> 'e option \<Rightarrow> 'm \<Rightarrow> 'n target option \<Rightarrow> MessageSenderOptions option
     \<Rightarrow> 'e option \<times> jsval promise \<times> call list" where
  "sendMessageRequest chrome lastError message target options =
     (case hostSendMessage chrome message target of
        Throw thrown \<Rightarrow> (None, Rejected thrown, [])
      | Return response \<Rightarrow> (None, handleMessageResponse response options))"

section \<open>Router core\<close>

text \<open>
  \<^verbatim>\<open>createRouterCore\<close> closes over the variable \<^verbatim>\<open>enabled\<close> and over the two functions
  that add and remove the message listener. The state of a router is that variable
  together with the state of the event the listener is added to; \<^verbatim>\<open>addListener\<close> and
  \<^verbatim>\<open>removeListener\<close> act on the latter.
\<close>

record 'l router =
  enabled :: bool
  listeners :: 'l

definition enable :: "('l \<Rightarrow> 'l) \<Rightarrow> 'l router \<Rightarrow> 'l router" where
  "enable addListener r =
     (if \<not> enabled r then r\<lparr> listeners := addListener (listeners r), enabled := True \<rparr> else r)"

definition disable :: "('l \<Rightarrow> 'l) \<Rightarrow> 'l router \<Rightarrow> 'l router" where
  "disable removeListener r =
     (if enabled r then r\<lparr> listeners := removeListener (listeners r), enabled := False \<rparr> else r)"

text \<open>\<^verbatim>\<open>let enabled = initialEnabled; if (enabled) { enable() }\<close>\<close>

definition createRouterCore :: "('l \<Rightarrow> 'l) \<Rightarrow> ('l \<Rightarrow> 'l) \<Rightarrow> bool \<Rightarrow> 'l \<Rightarrow> 'l router" where
  "createRouterCore addListener removeListener initialEnabled event =
     (let r = \<lparr> enabled = initialEnabled, listeners = event \<rparr>
      in if enabled r then enable addListener r else r)"

text \<open>
  \<^verbatim>\<open>createMessageRouter\<close> and \<^verbatim>\<open>createPortRouter\<close> pass \<^verbatim>\<open>options.enabled\<close>, which may be
  \<^verbatim>\<open>undefined\<close>; the default value of the parameter \<^verbatim>\<open>initialEnabled\<close> is \<^verbatim>\<open>true\<close>.
\<close>

definition createMessageRouter :: "('l \<Rightarrow> 'l) \<Rightarrow> ('l \<Rightarrow> 'l) \<Rightarrow> bool option \<Rightarrow> 'l \<Rightarrow> 'l router" where
  "createMessageRouter addListener removeListener optionsEnabled event =
     createRouterCore addListener removeListener
       (case optionsEnabled of None \<Rightarrow> True | Some b \<Rightarrow> b) event"

text \<open>The listeners of an event, counted: adding registers one more, removing one fewer.\<close>

definition addOne :: "nat \<Rightarrow> nat" where
  "addOne n = Suc n"

definition removeOne :: "nat \<Rightarrow> nat" where
  "removeOne n = n - 1"

section \<open>Auxiliary notions for the message responses\<close>

text \<open>
  The callbacks that the options carry return normally, whatever they are called with;
  and the calls that the \<^verbatim>\<open>catch\<close> handler then makes for an error.
\<close>

definition returnsNormally :: "callback option \<Rightarrow> bool" where
  "returnsNormally cb = (case cb of None \<Rightarrow> True | Some f \<Rightarrow> \<forall>e. f e = None)"

definition callbacksReturn :: "MessageSenderOptions option \<Rightarrow> bool" where
  "callbacksReturn options =
     (case options of
        None \<Rightarrow> True
      | Some opts \<Rightarrow> returnsNormally (logger opts) \<and> returnsNormally (onError opts))"

definition expectedCalls :: "MessageSenderOptions option \<Rightarrow> jsval \<Rightarrow> call list" where
  "expectedCalls options err =
     (case options of
        None \<Rightarrow> []
      | Some opts \<Rightarrow>
          (case logger opts of None \<Rightarrow> [] | Some _ \<Rightarrow> [LoggerError err])
          @ (case onError opts of None \<Rightarrow> [] | Some _ \<Rightarrow> [OnError err]))"

section \<open>The lookups of the resolver as the specification words them\<close>

text \<open>
  The first successful resolution among a list of expressions, tried in order, each
  with the visited set the previous attempts left.
\<close>

fun firstResolution :: "resolver \<Rightarrow> node list \<Rightarrow> visited \<Rightarrow> outcome" where
  "firstResolution rec [] visited = Some (None, visited)"
| "firstResolution rec (e # es) visited =
     (case rec e visited of
        None \<Rightarrow> None
      | Some (Some resolved, visited') \<Rightarrow> Some (Some resolved, visited')
      | Some (None, visited') \<Rightarrow> firstResolution rec es visited')"

definition expressionsOf :: "node option list \<Rightarrow> node list" where
  "expressionsOf stmts = concat (map (\<lambda>r. case r of None \<Rightarrow> [] | Some e \<Rightarrow> [e]) stmts)"

definition returnExpressions :: "string \<Rightarrow> SourceFile \<Rightarrow> node list" where
  "returnExpressions name sourceFile =
     concat (map (\<lambda>f. expressionsOf (returnStatements f))
               (filter (\<lambda>f. functionName f = Some name) (getFunctions sourceFile)))"

definition declaredInitializer :: "string \<Rightarrow> SourceFile \<Rightarrow> node option" where
  "declaredInitializer name sourceFile =
     (case find (\<lambda>d. declarationName d = name \<and> getInitializer d \<noteq> None)
             (getVariableDeclarations sourceFile) of
        None \<Rightarrow> None
      | Some d \<Rightarrow> getInitializer d)"

section \<open>Notions used in the proofs\<close>

text \<open>
  A set of expressions is closed when it holds, with each expression, the expressions
  below it. An outcome is settled when it is a return (the counter did not run out), the
  visited set only grew, and what was resolved is an object literal of the set. A
  resolver settles a set of expressions from a visited set on when its outcome is
  settled for every expression of the set and every larger visited set. One resolver
  extends another when it returns whatever the other returns.
\<close>

definition closed :: "node set \<Rightarrow> bool" where
  "closed S = (\<forall>n\<in>S. set (subexpressions n) \<subseteq> S)"

definition settled :: "node set \<Rightarrow> visited \<Rightarrow> outcome \<Rightarrow> bool" where
  "settled S v out =
     (\<exists>r v'. out = Some (r, v') \<and> v \<subseteq> v'
        \<and> (\<forall>obj. r = Some obj \<longrightarrow> obj \<in> S \<and> isObjectLiteralExpression obj))"

definition settles :: "node set \<Rightarrow> visited \<Rightarrow> resolver \<Rightarrow> bool" where
  "settles S V rec = (\<forall>n\<in>S. \<forall>v. V \<subseteq> v \<longrightarrow> settled S v (rec n v))"

definition extends :: "('a \<Rightarrow> 'b \<Rightarrow> 'c option) \<Rightarrow> ('a \<Rightarrow> 'b \<Rightarrow> 'c option) \<Rightarrow> bool" where
  "extends rec rec' = (\<forall>n v x. rec n v = Some x \<longrightarrow> rec' n v = Some x)"

text \<open>
  The same for the aggregation: the routes appended by a run are routes that the
  extractor gives for some object literal of the set.
\<close>

definition routesOf :: "node set \<Rightarrow> string \<Rightarrow> RouteInfo set" where
  "routesOf S filePath = (\<Union>obj\<in>S. set (extractRoutesFromObjectLiteral obj filePath))"

definition aggregated :: "node set \<Rightarrow> string \<Rightarrow> aggregation \<Rightarrow> aggregation option \<Rightarrow> bool" where
  "aggregated S filePath state out =
     (\<exists>visited' routes. out = Some (visited', snd state @ routes)
        \<and> fst state \<subseteq> visited' \<and> set routes \<subseteq> routesOf S filePath)"

definition aggregates :: "node set \<Rightarrow> string \<Rightarrow> visited \<Rightarrow> extraction \<Rightarrow> bool" where
  "aggregates S filePath V rec =
     (\<forall>obj\<in>S. \<forall>state. V \<subseteq> fst state \<longrightarrow> aggregated S filePath state (rec obj state))"

section \<open>Example programs\<close>

text \<open>Source text between single quotes, as in a quoted property key.\<close>

definition quoted :: "string \<Rightarrow> string" where
  "quoted s = CHR 0x27 # s @ [CHR 0x27]"

text \<open>
  The routes object of the specification's first scenario:
  \<^verbatim>\<open>{ 'foo': () => 1, 'foo/bar': async ({value}: {value:number}) => value*2 }\<close>
\<close>

definition valueParameter :: ParameterDeclaration where
  "valueParameter = Parameter ''{value}: {value:number}'' (Some ''{value:number}'')"

definition oneHandler :: node where
  "oneHandler = ArrowFunction ''() => 1'' [] ''number''"

definition doubleHandler :: node where
  "doubleHandler =
     ArrowFunction ''async ({value}: {value:number}) => value*2'' [valueParameter]
       ''Promise<number>''"

definition scenarioRoutes :: node where
  "scenarioRoutes =
     ObjectLiteralExpression
       (''{ '' @ quoted ''foo'' @ '': () => 1, '' @ quoted ''foo/bar''
          @ '': async ({value}: {value:number}) => value*2 }'')
       [PropertyAssignment (quoted ''foo'') (Some oneHandler),
        PropertyAssignment (quoted ''foo/bar'') (Some doubleHandler)]"

text \<open>
  A literal with one member of every kind:
  \<^verbatim>\<open>{ 'foo': () => 1, bar(id: number) {}, baz: function (s: string) { return s }, n: 42,
     ...rest, short, get g() { return 1 } }\<close>
\<close>

definition mixedLiteral :: node where
  "mixedLiteral =
     ObjectLiteralExpression
       (''{ '' @ quoted ''foo'' @ '': () => 1, bar(id: number) {}, ''
          @ ''baz: function (s: string) { return s }, n: 42, ...rest, short, ''
          @ ''get g() { return 1 } }'')
       [PropertyAssignment (quoted ''foo'') (Some oneHandler),
        MethodDeclaration ''bar'' [Parameter ''id: number'' (Some ''number'')] ''void'',
        PropertyAssignment ''baz''
          (Some (FunctionExpression ''function (s: string) { return s }''
                   [Parameter ''s: string'' (Some ''string'')] ''string'')),
        PropertyAssignment ''n'' (Some (OtherExpression ''42'')),
        SpreadAssignment (Identifier ''rest''),
        ShorthandPropertyAssignment ''short'',
        GetAccessorDeclaration ''g'']"

text \<open>A route whose key is the empty string literal: \<^verbatim>\<open>{ '': () => 1 }\<close>\<close>

definition emptyKeyRoutes :: node where
  "emptyKeyRoutes =
     ObjectLiteralExpression (''{ '' @ quoted [] @ '': () => 1 }'')
       [PropertyAssignment (quoted []) (Some oneHandler)]"

definition emptyFile :: SourceFile where
  "emptyFile = \<lparr> getVariableDeclarations = [], getFunctions = [] \<rparr>"

text \<open>
  A file that combines routes through helpers:
  \<^verbatim>\<open>const base = { ping() {} }
  function makeRoutes() { if (flag) { return undefinedThing } return base }
  const wrapped = defineMessageRoutes(base)\<close>
  and three calls over it: \<^verbatim>\<open>merge(base, extra)\<close>, \<^verbatim>\<open>Object.assign(base, extra)\<close> and
  \<^verbatim>\<open>makeRoutes()\<close>. The callee \<^verbatim>\<open>Object.assign\<close> is a property access on the identifier
  \<^verbatim>\<open>Object\<close>; an identifier has no dot in it.
\<close>

definition baseLiteral :: node where
  "baseLiteral =
     ObjectLiteralExpression ''{ ping() {} }'' [MethodDeclaration ''ping'' [] ''void'']"

definition helperFile :: SourceFile where
  "helperFile =
     \<lparr> getVariableDeclarations =
         [VariableDeclaration ''base'' (Some baseLiteral),
          VariableDeclaration ''wrapped''
            (Some (CallExpression ''defineMessageRoutes(base)'' (Identifier ''defineMessageRoutes'')
                     [Identifier ''base'']))],
       getFunctions =
         [FunctionDeclaration (Some ''makeRoutes'')
            [Some (Identifier ''undefinedThing''), Some (Identifier ''base'')]] \<rparr>"

definition mergeCall :: node where
  "mergeCall =
     CallExpression ''merge(base, extra)'' (Identifier ''merge'')
       [Identifier ''base'', Identifier ''extra'']"

definition objectAssignCall :: node where
  "objectAssignCall =
     CallExpression ''Object.assign(base, extra)''
       (PropertyAccessExpression ''Object.assign'' (Identifier ''Object'') ''assign'')
       [Identifier ''base'', Identifier ''extra'']"

definition makeRoutesCall :: node where
  "makeRoutesCall = CallExpression ''makeRoutes()'' (Identifier ''makeRoutes'') []"

text \<open>
  Cyclic declarations:
  \<^verbatim>\<open>const a = b
  const b = a
  const self = { ...self, own() {} }\<close>
\<close>

definition selfLiteral :: node where
  "selfLiteral =
     ObjectLiteralExpression ''{ ...self, own() {} }''
       [SpreadAssignment (Identifier ''self''), MethodDeclaration ''own'' [] ''void'']"

definition cyclicFile :: SourceFile where
  "cyclicFile =
     \<lparr> getVariableDeclarations =
         [VariableDeclaration ''a'' (Some (Identifier ''b'')),
          VariableDeclaration ''b'' (Some (Identifier ''a'')),
          VariableDeclaration ''self'' (Some selfLiteral)],
       getFunctions = [] \<rparr>"

text \<open>
  A router that spreads an alias cycle, an undeclared name and a declared object, and
  repeats a path of the latter:
  \<^verbatim>\<open>createMessageRouter({ ...a, ...missing, ...base, ping() {} })\<close>
\<close>

definition spreadingLiteral :: node where
  "spreadingLiteral =
     ObjectLiteralExpression ''{ ...a, ...missing, ...base, ping() {} }''
       [SpreadAssignment (Identifier ''a''), SpreadAssignment (Identifier ''missing''),
        SpreadAssignment (Identifier ''base''), MethodDeclaration ''ping'' [] ''void'']"

definition spreadingFile :: SourceFile where
  "spreadingFile =
     \<lparr> getVariableDeclarations =
         [VariableDeclaration ''a'' (Some (Identifier ''b'')),
          VariableDeclaration ''b'' (Some (Identifier ''a'')),
          VariableDeclaration ''base'' (Some baseLiteral)],
       getFunctions = [] \<rparr>"

text \<open>A callback that throws what it is given, and one that returns.\<close>

definition rethrow :: callback where
  "rethrow e = Some e"

definition ignore :: callback where
  "ignore e = None"

text \<open>Options with callbacks that return, and options whose \<^verbatim>\<open>onError\<close> rethrows.\<close>

definition loggingOptions :: "MessageSenderOptions option" where
  "loggingOptions = Some \<lparr> logger = Some ignore, onError = Some ignore \<rparr>"

definition rethrowingOptions :: "MessageSenderOptions option" where
  "rethrowingOptions = Some \<lparr> logger = None, onError = Some rethrow \<rparr>"

text \<open>
  A host whose functions answer every message with \<^verbatim>\<open>{ data: 2 }\<close>, and a host that
  refuses every invocation by throwing.
\<close>

definition answer :: "MessageResponse promise completion" where
  "answer = Return (Fulfilled \<lparr> data = JSNumber 2, error = JSUndefined \<rparr>)"

definition answeringChrome :: "(int, jsval) chrome" where
  "answeringChrome =
     \<lparr> tabsSendMessage = (\<lambda>n m. answer),
       runtimeSendMessageTo = (\<lambda>s m. answer),
       runtimeSendMessage = (\<lambda>m. answer) \<rparr>"

definition refusal :: "MessageResponse promise completion" where
  "refusal = Throw (JSString ''Error in invocation of sendMessage'')"

definition refusingChrome :: "(int, jsval) chrome" where
  "refusingChrome =
     \<lparr> tabsSendMessage = (\<lambda>n m. refusal),
       runtimeSendMessageTo = (\<lambda>s m. refusal),
       runtimeSendMessage = (\<lambda>m. refusal) \<rparr>"


section \<open>Facts about the extractor\<close>

lemma forEachProperty_route:
  "forEachProperty filePath p = (if isRouteProperty p then Some (routeOf filePath p) else None)"
proof (cases p)
  case (PropertyAssignment n initializer)
  show ?thesis
  proof (cases initializer)
    case None
    with PropertyAssignment show ?thesis by simp
  next
    case (Some v)
    with PropertyAssignment show ?thesis
      by (cases v) (simp_all add: routeOf_def routeInfo_def nameText_def)
  qed
qed (simp_all add: routeOf_def routeInfo_def nameText_def)

lemma foldl_pushRoute:
  "foldl (pushRoute filePath) acc props =
     acc @ map (routeOf filePath) (filter isRouteProperty props)"
  by (induction props arbitrary: acc) (simp_all add: pushRoute_def forEachProperty_route)

lemma extractRoutes_objectLiteral:
  "extractRoutesFromObjectLiteral (ObjectLiteralExpression t props) filePath =
     map (routeOf filePath) (filter isRouteProperty props)"
  by (simp add: extractRoutesFromObjectLiteral_def foldl_pushRoute)

lemma stripQuotes_unquoted:
  "s \<noteq> [] \<Longrightarrow> \<not> isQuote (hd s) \<Longrightarrow> \<not> isQuote (last s) \<Longrightarrow> stripQuotes s = s"
  by (cases s) (simp_all add: stripQuotes_def)

lemma stripQuotes_quoted: "stripQuotes (quoted s) = s"
  by (simp add: stripQuotes_def quoted_def isQuote_def)

lemma stripQuotes_empty_iff:
  "stripQuotes s = [] \<longleftrightarrow> length s \<le> 2 \<and> (\<forall>c\<in>set s. isQuote c)"
proof (cases s)
  case Nil
  then show ?thesis by (simp add: stripQuotes_def)
next
  case (Cons c cs)
  show ?thesis
  proof (cases cs rule: rev_cases)
    case Nil
    with Cons show ?thesis by (simp add: stripQuotes_def)
  next
    case (snoc ds d)
    with Cons show ?thesis
      by (cases ds) (auto simp add: stripQuotes_def Let_def split: if_splits)
  qed
qed

text \<open>
  Claim C5. For every object literal the extractor emits exactly one route per member
  that is a method-shorthand or a key/value property whose value is an arrow function or
  a function expression, in the order of the members, and nothing for any other member
  (a key/value property with another value, a spread, a shorthand property, an
  accessor); it returns a list in every case. The path of a route is the member's name
  with one quote character dropped at each end, which is the name itself when it is
  written without quotes; the parameters and the return type are those of the method
  itself, or of the function that is the property's value.
\<close>

theorem extractor_one_route_per_handler:
  "extractRoutesFromObjectLiteral (ObjectLiteralExpression t props) filePath =
     map (routeOf filePath) (filter isRouteProperty props)
   \<and> length (extractRoutesFromObjectLiteral (ObjectLiteralExpression t props) filePath) =
       length (filter isRouteProperty props)
   \<and> (\<forall>p\<in>set props. isRouteProperty p \<longleftrightarrow>
         (\<exists>n ps rt. p = MethodDeclaration n ps rt)
         \<or> (\<exists>n v. p = PropertyAssignment n (Some v) \<and> isFunctionValued v))
   \<and> (\<forall>n ps rt. routeOf filePath (MethodDeclaration n ps rt) = routeInfo n filePath ps rt)
   \<and> (\<forall>n ft ps rt. routeOf filePath (PropertyAssignment n (Some (ArrowFunction ft ps rt))) =
         routeInfo n filePath ps rt)
   \<and> (\<forall>n ft ps rt. routeOf filePath (PropertyAssignment n (Some (FunctionExpression ft ps rt))) =
         routeInfo n filePath ps rt)
   \<and> (\<forall>n ps rt. path (routeInfo n filePath ps rt) = stripQuotes n
         \<and> (n \<noteq> [] \<and> \<not> isQuote (hd n) \<and> \<not> isQuote (last n)
              \<longrightarrow> path (routeInfo n filePath ps rt) = n))"
proof -
  have "isRouteProperty p \<longleftrightarrow>
         (\<exists>n ps rt. p = MethodDeclaration n ps rt)
         \<or> (\<exists>n v. p = PropertyAssignment n (Some v) \<and> isFunctionValued v)" for p
    by (cases p rule: isRouteProperty.cases) simp_all
  then show ?thesis
    by (simp add: extractRoutes_objectLiteral routeOf_def routeInfo_def nameText_def
        stripQuotes_unquoted)
qed

theorem extractor_one_route_per_handler_witness:
  "extractRoutesFromObjectLiteral mixedLiteral ''a.ts'' =
     [\<lparr>path = ''foo'', file' = ''a.ts'', paramText = [], returnType = ''number''\<rparr>,
      \<lparr>path = ''bar'', file' = ''a.ts'', paramText = ''id: number'', returnType = ''void''\<rparr>,
      \<lparr>path = ''baz'', file' = ''a.ts'', paramText = ''s: string'', returnType = ''string''\<rparr>]"
proof -
  have "extractRoutesFromObjectLiteral mixedLiteral ''a.ts'' =
          map (routeOf ''a.ts'') (filter isRouteProperty (getProperties mixedLiteral))"
    unfolding mixedLiteral_def getProperties.simps
    by (rule extractor_one_route_per_handler [THEN conjunct1])
  then show ?thesis
    by (simp add: mixedLiteral_def oneHandler_def routeOf_def nameText_def quoted_def
        stripQuotes_def isQuote_def Let_def)
qed

section \<open>The parameter text of a route\<close>

text \<open>
  Claim C6, as amended. For every route the extractor emits, \<open>paramText\<close> is the whole
  source text of the handler's first parameter (its name or binding pattern, with the
  type annotation and the initializer it may have) when the handler declares a
  parameter, and the empty string when it declares none.
\<close>

theorem paramText_is_first_parameter_text:
  "map paramText (extractRoutesFromObjectLiteral (ObjectLiteralExpression t props) filePath) =
     map (\<lambda>p. case handlerParameters p of [] \<Rightarrow> [] | q # _ \<Rightarrow> parameterText q)
       (filter isRouteProperty props)"
  by (simp add: extractRoutes_objectLiteral routeOf_def)

theorem paramText_is_first_parameter_text_witness:
  "map paramText (extractRoutesFromObjectLiteral scenarioRoutes ''a.ts'') =
     [[], ''{value}: {value:number}'']"
proof -
  have "map paramText (extractRoutesFromObjectLiteral scenarioRoutes ''a.ts'') =
          map (\<lambda>p. case handlerParameters p of [] \<Rightarrow> [] | q # _ \<Rightarrow> parameterText q)
            (filter isRouteProperty (getProperties scenarioRoutes))"
    unfolding scenarioRoutes_def getProperties.simps
    by (rule paramText_is_first_parameter_text)
  then show ?thesis
    by (simp add: scenarioRoutes_def oneHandler_def doubleHandler_def valueParameter_def)
qed

text \<open>
  The claim as stated fails on the specification's own scenario: the first parameter of
  the handler of \<^verbatim>\<open>foo/bar\<close> is annotated \<^verbatim>\<open>{value:number}\<close>, and the extractor
  gives \<^verbatim>\<open>{value}: {value:number}\<close>.
\<close>

theorem paramText_is_not_the_type_annotation:
  "getProperties scenarioRoutes =
     [PropertyAssignment (quoted ''foo'') (Some oneHandler),
      PropertyAssignment (quoted ''foo/bar'') (Some doubleHandler)]
   \<and> handlerParameters (PropertyAssignment (quoted ''foo/bar'') (Some doubleHandler)) =
       [valueParameter]
   \<and> typeNodeText valueParameter = Some ''{value:number}''
   \<and> map paramText (extractRoutesFromObjectLiteral scenarioRoutes ''a.ts'') =
       [[], ''{value}: {value:number}'']
   \<and> ''{value}: {value:number}'' \<noteq> ''{value:number}''"
  by (simp add: scenarioRoutes_def oneHandler_def doubleHandler_def valueParameter_def
      extractRoutes_objectLiteral routeOf_def)

section \<open>The router and its listener\<close>

lemma createRouterCore_enabled_adds_nothing:
  "createRouterCore addListener removeListener True event = \<lparr> enabled = True, listeners = event \<rparr>"
  by (simp add: createRouterCore_def enable_def)

lemma enable_idempotent: "enabled r \<Longrightarrow> enable addListener r = r"
  by (simp add: enable_def)

lemma disable_idempotent: "\<not> enabled r \<Longrightarrow> disable removeListener r = r"
  by (simp add: disable_def)

text \<open>
  Claim C10 does not hold of the code. A router created with the default options, or
  with \<^verbatim>\<open>enabled: true\<close>, has its flag set before \<^verbatim>\<open>enable()\<close> is called, so the
  guard of \<^verbatim>\<open>enable\<close> skips \<^verbatim>\<open>addListener\<close>: the router is enabled and no listener is
  added, and a later \<^verbatim>\<open>enable()\<close> adds none either. A router created with
  \<^verbatim>\<open>enabled: false\<close> adds its listener at the first \<^verbatim>\<open>enable()\<close>.
\<close>

theorem default_router_never_adds_its_listener:
  "createMessageRouter addOne removeOne None 0 = \<lparr> enabled = True, listeners = 0 \<rparr>
   \<and> enable addOne (createMessageRouter addOne removeOne None 0) =
       \<lparr> enabled = True, listeners = 0 \<rparr>
   \<and> createMessageRouter addOne removeOne (Some True) 0 = \<lparr> enabled = True, listeners = 0 \<rparr>
   \<and> createMessageRouter addOne removeOne (Some False) 0 = \<lparr> enabled = False, listeners = 0 \<rparr>
   \<and> enable addOne (createMessageRouter addOne removeOne (Some False) 0) =
       \<lparr> enabled = True, listeners = 1 \<rparr>"
  by (simp add: createMessageRouter_def createRouterCore_def enable_def addOne_def)

section \<open>Message responses never reject when the callbacks return\<close>

lemma onRejected_returns:
  "callbacksReturn options \<Longrightarrow> onRejected options err = (Return JSUndefined, expectedCalls options err)"
  by (auto simp add: callbacksReturn_def returnsNormally_def onRejected_def expectedCalls_def
      optionalCall_def Let_def split: option.splits)

lemma handleMessageResponse_cases:
  assumes "callbacksReturn options"
  shows "handleMessageResponse response options =
     (case response of
        Pending \<Rightarrow> (Pending, [])
      | Rejected e \<Rightarrow> (Fulfilled JSUndefined, expectedCalls options e)
      | Fulfilled result \<Rightarrow>
          if truthy (error result) then (Fulfilled JSUndefined, expectedCalls options (error result))
          else (Fulfilled (data result), []))"
  using assms
  by (cases response)
     (simp_all add: handleMessageResponse_def promiseThen_def promiseCatch_def onFulfilled_def
       settle_def onRejected_returns)


text \<open>
  Claim C9, as amended. When the logger's \<^verbatim>\<open>error\<close> method and the \<^verbatim>\<open>onError\<close>
  callback return normally (or are absent), the promise returned by
  \<^verbatim>\<open>handleMessageResponse\<close> never rejects: a response whose \<^verbatim>\<open>error\<close> is falsy
  resolves it with the response's \<^verbatim>\<open>data\<close> and no callback is called; a response whose
  \<^verbatim>\<open>error\<close> is truthy, or a rejected response promise, resolves it with \<^verbatim>\<open>undefined\<close>
  after the logger and then \<^verbatim>\<open>onError\<close> were called with the error. When, besides, the
  host's send function returns its promise, \<^verbatim>\<open>sendMessageRequest\<close> gives what
  \<^verbatim>\<open>handleMessageResponse\<close> gives for that promise, and so never rejects. When the
  host's send function throws instead, the promise of \<^verbatim>\<open>sendMessageRequest\<close> is
  rejected with what was thrown and no callback is called.
\<close>

theorem handleMessageResponse_settles_without_rejection:
  assumes "callbacksReturn options"
  shows "(\<forall>e. fst (handleMessageResponse response options) \<noteq> Rejected e)
     \<and> (\<forall>result. response = Fulfilled result \<and> \<not> truthy (error result) \<longrightarrow>
           handleMessageResponse response options = (Fulfilled (data result), []))
     \<and> (\<forall>result. response = Fulfilled result \<and> truthy (error result) \<longrightarrow>
           handleMessageResponse response options =
             (Fulfilled JSUndefined, expectedCalls options (error result)))
     \<and> (\<forall>e. response = Rejected e \<longrightarrow>
           handleMessageResponse response options = (Fulfilled JSUndefined, expectedCalls options e))
     \<and> (\<forall>sent. hostSendMessage chrome message target = Return sent \<longrightarrow>
           snd (sendMessageRequest chrome lastError message target options) =
             handleMessageResponse sent options
           \<and> (\<forall>e. fst (snd (sendMessageRequest chrome lastError message target options))
                  \<noteq> Rejected e))
     \<and> (\<forall>thrown. hostSendMessage chrome message target = Throw thrown \<longrightarrow>
           snd (sendMessageRequest chrome lastError message target options) =
             (Rejected thrown, []))"
proof -
  note cases = handleMessageResponse_cases [OF assms]
  have never: "fst (handleMessageResponse r options) \<noteq> Rejected e" for r e
    by (cases r) (simp_all add: cases)
  have a: "\<forall>e. fst (handleMessageResponse response options) \<noteq> Rejected e"
    using never by blast
  have b: "\<forall>result. response = Fulfilled result \<and> \<not> truthy (error result) \<longrightarrow>
           handleMessageResponse response options = (Fulfilled (data result), [])"
    by (simp add: cases)
  have c: "\<forall>result. response = Fulfilled result \<and> truthy (error result) \<longrightarrow>
           handleMessageResponse response options =
             (Fulfilled JSUndefined, expectedCalls options (error result))"
    by (simp add: cases)
  have d: "\<forall>e. response = Rejected e \<longrightarrow>
           handleMessageResponse response options = (Fulfilled JSUndefined, expectedCalls options e)"
    by (simp add: cases)
  have e: "\<forall>sent. hostSendMessage chrome message target = Return sent \<longrightarrow>
           snd (sendMessageRequest chrome lastError message target options) =
             handleMessageResponse sent options
           \<and> (\<forall>e. fst (snd (sendMessageRequest chrome lastError message target options))
                  \<noteq> Rejected e)"
    using never by (simp add: sendMessageRequest_def)
  have f: "\<forall>thrown. hostSendMessage chrome message target = Throw thrown \<longrightarrow>
           snd (sendMessageRequest chrome lastError message target options) =
             (Rejected thrown, [])"
    by (simp add: sendMessageRequest_def)
  from a b c d e f show ?thesis by (intro conjI)
qed

theorem handleMessageResponse_settles_without_rejection_witness:
  "callbacksReturn loggingOptions
   \<and> handleMessageResponse (Rejected (JSString ''no receiver'')) loggingOptions =
       (Fulfilled JSUndefined,
        [LoggerError (JSString ''no receiver''), OnError (JSString ''no receiver'')])
   \<and> handleMessageResponse
         (Fulfilled \<lparr> data = JSNumber 2, error = JSUndefined \<rparr>) loggingOptions =
       (Fulfilled (JSNumber 2), [])
   \<and> hostSendMessage answeringChrome (JSString ''ping'') None =
       Return (Fulfilled \<lparr> data = JSNumber 2, error = JSUndefined \<rparr>)
   \<and> snd (sendMessageRequest answeringChrome (None :: jsval option) (JSString ''ping'') None
            loggingOptions) =
       (Fulfilled (JSNumber 2), [])
   \<and> hostSendMessage refusingChrome (JSString ''ping'') (Some (NumberTarget 7)) =
       Throw (JSString ''Error in invocation of sendMessage'')
   \<and> snd (sendMessageRequest refusingChrome (None :: jsval option) (JSString ''ping'')
            (Some (NumberTarget 7)) loggingOptions) =
       (Rejected (JSString ''Error in invocation of sendMessage''), [])"
proof -
  have h: "callbacksReturn loggingOptions"
    by (simp add: callbacksReturn_def returnsNormally_def loggingOptions_def ignore_def)
  note t = handleMessageResponse_settles_without_rejection [OF h]
  have r: "handleMessageResponse (Rejected (JSString ''no receiver'')) loggingOptions =
          (Fulfilled JSUndefined, expectedCalls loggingOptions (JSString ''no receiver''))"
    by (rule t [THEN conjunct2, THEN conjunct2, THEN conjunct2, THEN conjunct1, rule_format])
       (rule refl)
  have f: "handleMessageResponse
         (Fulfilled \<lparr> data = JSNumber 2, error = JSUndefined \<rparr>) loggingOptions =
       (Fulfilled (data \<lparr> data = JSNumber 2, error = JSUndefined \<rparr>), [])"
    by (rule t [THEN conjunct2, THEN conjunct1, rule_format]) simp
  then have f': "handleMessageResponse
         (Fulfilled \<lparr> data = JSNumber 2, error = JSUndefined \<rparr>) loggingOptions =
       (Fulfilled (JSNumber 2), [])"
    by (simp only: MessageResponse.simps)
  have c: "expectedCalls loggingOptions (JSString ''no receiver'') =
       [LoggerError (JSString ''no receiver''), OnError (JSString ''no receiver'')]"
    by (simp add: expectedCalls_def loggingOptions_def)
  have sent: "hostSendMessage answeringChrome (JSString ''ping'') None =
       Return (Fulfilled \<lparr> data = JSNumber 2, error = JSUndefined \<rparr>)"
    by (simp add: hostSendMessage_def answeringChrome_def answer_def)
  have "snd (sendMessageRequest answeringChrome (None :: jsval option) (JSString ''ping'') None
            loggingOptions) =
       handleMessageResponse (Fulfilled \<lparr> data = JSNumber 2, error = JSUndefined \<rparr>)
         loggingOptions"
    by (rule t [THEN conjunct2, THEN conjunct2, THEN conjunct2, THEN conjunct2, THEN conjunct1,
          rule_format, THEN conjunct1])
       (rule sent)
  then have s: "snd (sendMessageRequest answeringChrome (None :: jsval option) (JSString ''ping'')
            None loggingOptions) =
       (Fulfilled (JSNumber 2), [])"
    by (simp only: f')
  have refused: "hostSendMessage refusingChrome (JSString ''ping'') (Some (NumberTarget 7)) =
       Throw (JSString ''Error in invocation of sendMessage'')"
    by (simp add: hostSendMessage_def refusingChrome_def refusal_def)
  have x: "snd (sendMessageRequest refusingChrome (None :: jsval option) (JSString ''ping'')
            (Some (NumberTarget 7)) loggingOptions) =
       (Rejected (JSString ''Error in invocation of sendMessage''), [])"
    by (rule t [THEN conjunct2, THEN conjunct2, THEN conjunct2, THEN conjunct2, THEN conjunct2,
          rule_format])
       (rule refused)
  have r': "handleMessageResponse (Rejected (JSString ''no receiver'')) loggingOptions =
       (Fulfilled JSUndefined,
        [LoggerError (JSString ''no receiver''), OnError (JSString ''no receiver'')])"
    using r by (simp only: c)
  from h r' f' sent s refused x show ?thesis by (intro conjI)
qed

text \<open>
  The claim as stated fails when a callback throws: the value thrown inside the
  \<^verbatim>\<open>catch\<close> handler rejects the returned promise. It fails for
  \<^verbatim>\<open>sendMessageRequest\<close> also when the host's send function throws: the promise is
  rejected, with no options at all and with callbacks that return.
\<close>

theorem handleMessageResponse_rejects_when_onError_throws:
  "fst (handleMessageResponse (Rejected (JSString ''no receiver'')) rethrowingOptions) =
     Rejected (JSString ''no receiver'')
   \<and> fst (handleMessageResponse
            (Fulfilled \<lparr> data = JSUndefined, error = JSString ''handler failed'' \<rparr>)
            rethrowingOptions) =
       Rejected (JSString ''handler failed'')
   \<and> sendMessageRequest refusingChrome (None :: jsval option) (JSString ''ping'')
         (Some (NumberTarget 7)) None =
       (None, Rejected (JSString ''Error in invocation of sendMessage''), [])
   \<and> sendMessageRequest refusingChrome (None :: jsval option) (JSString ''ping'') None
         loggingOptions =
       (None, Rejected (JSString ''Error in invocation of sendMessage''), [])"
  by (simp add: handleMessageResponse_def promiseThen_def promiseCatch_def onFulfilled_def
      settle_def onRejected_def optionalCall_def rethrowingOptions_def rethrow_def
      sendMessageRequest_def hostSendMessage_def refusingChrome_def refusal_def)

section \<open>Resolving identifiers and calls\<close>

lemma forVariableDeclarations_find:
  "forVariableDeclarations x ds =
     (case find (\<lambda>d. declarationName d = x \<and> getInitializer d \<noteq> None) ds of
        None \<Rightarrow> None
      | Some d \<Rightarrow> getInitializer d)"
  by (induction ds) (auto split: option.splits)

lemma firstResolution_append:
  "firstResolution rec (xs @ ys) v =
     (case firstResolution rec xs v of
        None \<Rightarrow> None
      | Some (Some r, v') \<Rightarrow> Some (Some r, v')
      | Some (None, v') \<Rightarrow> firstResolution rec ys v')"
  by (induction xs arbitrary: v) (auto split: option.splits)

lemma forReturnStatements_firstResolution:
  "forReturnStatements rec ss v = firstResolution rec (expressionsOf ss) v"
  by (induction ss arbitrary: v) (auto simp add: expressionsOf_def split: option.splits)

lemma forFunctionDeclarations_firstResolution:
  "forFunctionDeclarations rec x fs v =
     firstResolution rec
       (concat (map (\<lambda>f. expressionsOf (returnStatements f))
                  (filter (\<lambda>f. functionName f = Some x) fs))) v"
  by (induction fs arbitrary: v)
     (auto simp add: firstResolution_append forReturnStatements_firstResolution
        split: option.splits)

lemma resolveIdentifier_Identifier:
  "resolveIdentifier rec sf (Identifier x) v =
     (case declaredInitializer x sf of
        Some i \<Rightarrow> rec i v
      | None \<Rightarrow> firstResolution rec (returnExpressions x sf) v)"
  by (simp add: resolveIdentifier_def forVariableDeclarations_find declaredInitializer_def
      forFunctionDeclarations_firstResolution returnExpressions_def split: option.splits)

text \<open>
  Claim C3. For an identifier, the resolver first looks among the variable declarations
  of the file for one with that name and an initializer, and resolves the initializer of
  the first such declaration; the result of that resolution is the result, resolved or
  not. Only when no variable declaration has the name and an initializer does it go
  through the function declarations with that name, in order, and through the
  expressions of their return statements, in order: each is resolved, and the first
  resolution that succeeds is the result. Through \<open>resolveNodeRecursively\<close> the
  identifier's own text is added to the visited set first, and an identifier whose text
  was visited is unresolved.
\<close>

theorem identifier_resolution_order:
  "resolveIdentifier rec sf (Identifier x) v =
     (case declaredInitializer x sf of
        Some i \<Rightarrow> rec i v
      | None \<Rightarrow> firstResolution rec (returnExpressions x sf) v)
   \<and> (x \<notin> v \<longrightarrow>
        resolveNodeRecursively (Suc k) sf (Identifier x) v =
          (case declaredInitializer x sf of
             Some i \<Rightarrow> resolveNodeRecursively k sf i (insert x v)
           | None \<Rightarrow>
               firstResolution (resolveNodeRecursively k sf) (returnExpressions x sf) (insert x v)))
   \<and> (x \<in> v \<longrightarrow> resolveNodeRecursively (Suc k) sf (Identifier x) v = Some (None, v))"
  by (simp add: resolveIdentifier_Identifier dispatch_def Let_def)

lemmas resolver_defs =
  resolveVariableToObjectLiteral_def resolve_def resolveFuel_def reachable_def
  declaredExpressions_def dispatch_def resolveIdentifier_def resolveFunctionCall_def
  knownWrapperArgument_def resolvePropertyAccess_def getProperty_def Let_def

theorem identifier_resolution_order_witness:
  "declaredInitializer ''base'' helperFile = Some baseLiteral
   \<and> resolveNodeRecursively (Suc (Suc 0)) helperFile (Identifier ''base'') {} =
       Some (Some baseLiteral, {''{ ping() {} }'', ''base''})
   \<and> declaredInitializer ''makeRoutes'' helperFile = None
   \<and> returnExpressions ''makeRoutes'' helperFile =
       [Identifier ''undefinedThing'', Identifier ''base'']
   \<and> resolveNodeRecursively (Suc (Suc (Suc 0))) helperFile (Identifier ''makeRoutes'') {} =
       Some (Some baseLiteral, {''{ ping() {} }'', ''base'', ''undefinedThing'', ''makeRoutes''})"
proof -
  have i: "declaredInitializer ''base'' helperFile = Some baseLiteral"
    by (simp add: declaredInitializer_def helperFile_def)
  have n: "declaredInitializer ''makeRoutes'' helperFile = None"
    by (simp add: declaredInitializer_def helperFile_def)
  have e: "returnExpressions ''makeRoutes'' helperFile =
       [Identifier ''undefinedThing'', Identifier ''base'']"
    by (simp add: returnExpressions_def expressionsOf_def helperFile_def)
  have step: "resolveNodeRecursively (Suc (Suc 0)) helperFile (Identifier ''base'') {} =
      (case declaredInitializer ''base'' helperFile of
         Some i \<Rightarrow> resolveNodeRecursively (Suc 0) helperFile i (insert ''base'' {})
       | None \<Rightarrow> firstResolution (resolveNodeRecursively (Suc 0) helperFile)
                   (returnExpressions ''base'' helperFile) (insert ''base'' {}))"
    by (rule identifier_resolution_order [THEN conjunct2, THEN conjunct1, rule_format]) simp
  have b: "resolveNodeRecursively (Suc (Suc 0)) helperFile (Identifier ''base'') {} =
       Some (Some baseLiteral, {''{ ping() {} }'', ''base''})"
    unfolding step i by (simp add: dispatch_def baseLiteral_def Let_def)
  have step': "resolveNodeRecursively (Suc (Suc (Suc 0))) helperFile (Identifier ''makeRoutes'') {} =
      (case declaredInitializer ''makeRoutes'' helperFile of
         Some i \<Rightarrow> resolveNodeRecursively (Suc (Suc 0)) helperFile i (insert ''makeRoutes'' {})
       | None \<Rightarrow> firstResolution (resolveNodeRecursively (Suc (Suc 0)) helperFile)
                   (returnExpressions ''makeRoutes'' helperFile) (insert ''makeRoutes'' {}))"
    by (rule identifier_resolution_order [THEN conjunct2, THEN conjunct1, rule_format]) simp
  have m: "resolveNodeRecursively (Suc (Suc (Suc 0))) helperFile (Identifier ''makeRoutes'') {} =
       Some (Some baseLiteral, {''{ ping() {} }'', ''base'', ''undefinedThing'', ''makeRoutes''})"
    unfolding step' n e by (simp add: resolver_defs helperFile_def baseLiteral_def)
  from i b n e m show ?thesis by (intro conjI)
qed

lemma resolveFunctionCall_wrapper:
  assumes "funcName = ''defineMessageRoutes'' \<or> funcName = ''merge''"
  shows "resolveFunctionCall rec sf (CallExpression t (Identifier funcName) (arg0 # args)) v =
           rec arg0 v"
  using assms by (auto simp add: resolveFunctionCall_def knownWrapperArgument_def)

lemma resolveFunctionCall_declared_function:
  assumes "knownWrapperArgument (Identifier funcName) args = None"
  shows "resolveFunctionCall rec sf (CallExpression t (Identifier funcName) args) v =
           firstResolution rec (returnExpressions funcName sf) v"
  using assms
  by (simp add: resolveFunctionCall_def forFunctionDeclarations_firstResolution
      returnExpressions_def)

lemma resolveFunctionCall_property_access_callee:
  "resolveFunctionCall rec sf (CallExpression t (PropertyAccessExpression t' object name) args) v =
     Some (None, v)"
  by (simp add: resolveFunctionCall_def knownWrapperArgument_def)

text \<open>
  Claim C4 does not hold of the code for \<^verbatim>\<open>Object.assign\<close>. The first argument of
  \<^verbatim>\<open>defineMessageRoutes(...)\<close> and of \<^verbatim>\<open>merge(...)\<close> is resolved, and a call of a
  function declared in the file resolves through its return statements; but the callee
  of \<^verbatim>\<open>Object.assign(base, extra)\<close> is a property access, not an identifier, so the
  comparison with the name \<^verbatim>\<open>'Object.assign'\<close> is never reached and the call is
  unresolved.
\<close>

theorem object_assign_is_not_unwrapped:
  "resolveVariableToObjectLiteral objectAssignCall helperFile = None
   \<and> resolveVariableToObjectLiteral mergeCall helperFile = Some baseLiteral
   \<and> resolveVariableToObjectLiteral (Identifier ''wrapped'') helperFile = Some baseLiteral
   \<and> resolveVariableToObjectLiteral makeRoutesCall helperFile = Some baseLiteral"
  by (simp add: resolver_defs objectAssignCall_def mergeCall_def makeRoutesCall_def
      helperFile_def baseLiteral_def)

section \<open>Termination of the resolver\<close>

lemma subexpressions_self: "n \<in> set (subexpressions n)"
  by (cases n) simp_all

lemma subexpressions_trans:
  "m \<in> set (subexpressions n) \<Longrightarrow> set (subexpressions m) \<subseteq> set (subexpressions n)"
  "m \<in> set (elementExpressions p) \<Longrightarrow> set (subexpressions m) \<subseteq> set (elementExpressions p)"
  by (induction n and p rule: subexpressions_elementExpressions.induct) auto

lemma closed_subexpressions: "closed (set (subexpressions n))"
  using subexpressions_trans(1) by (auto simp add: closed_def)

lemma closed_Un: "closed A \<Longrightarrow> closed B \<Longrightarrow> closed (A \<union> B)"
  by (auto simp add: closed_def)

lemma closed_Union: "(\<And>A. A \<in> F \<Longrightarrow> closed A) \<Longrightarrow> closed (\<Union>F)"
  by (fastforce simp add: closed_def)

lemma closed_reachable: "closed (set (reachable node sf))"
  by (auto simp add: reachable_def intro!: closed_Un closed_Union closed_subexpressions)

lemma node_reachable: "node \<in> set (reachable node sf)"
  by (simp add: reachable_def subexpressions_self)

lemma declared_reachable: "set (declaredExpressions sf) \<subseteq> set (reachable node sf)"
  using subexpressions_self by (auto simp add: reachable_def)

lemma reachable_subset:
  assumes "closed S" "e \<in> S" "set (declaredExpressions sf) \<subseteq> S"
  shows "set (reachable e sf) \<subseteq> S"
  using assms by (auto simp add: reachable_def closed_def)

lemma closed_call:
  assumes "closed S" "CallExpression t e args \<in> S"
  shows "e \<in> S" "set args \<subseteq> S"
proof -
  have sub: "set (subexpressions (CallExpression t e args)) \<subseteq> S"
    using assms unfolding closed_def by blast
  show "e \<in> S" using sub subexpressions_self [of e] by auto
  show "set args \<subseteq> S" using sub subexpressions_self by auto
qed

lemma closed_access:
  assumes "closed S" "PropertyAccessExpression t e n \<in> S"
  shows "e \<in> S"
proof -
  have "set (subexpressions (PropertyAccessExpression t e n)) \<subseteq> S"
    using assms unfolding closed_def by blast
  then show ?thesis using subexpressions_self [of e] by auto
qed

lemma closed_member:
  assumes "closed S" "ObjectLiteralExpression t props \<in> S" "p \<in> set props"
  shows "set (elementExpressions p) \<subseteq> S"
proof -
  have "set (subexpressions (ObjectLiteralExpression t props)) \<subseteq> S"
    using assms unfolding closed_def by blast
  then show ?thesis using assms(3) by auto
qed

lemma closed_initializer:
  assumes "closed S" "ObjectLiteralExpression t props \<in> S"
    "PropertyAssignment n (Some i) \<in> set props"
  shows "i \<in> S"
  using closed_member [OF assms] subexpressions_self [of i] by auto

lemma closed_spread:
  assumes "closed S" "ObjectLiteralExpression t props \<in> S" "SpreadAssignment e \<in> set props"
  shows "e \<in> S"
  using closed_member [OF assms] subexpressions_self [of e] by auto

lemma forVariableDeclarations_declared:
  "forVariableDeclarations x ds = Some i \<Longrightarrow> \<exists>d\<in>set ds. getInitializer d = Some i"
  by (induction ds) (auto split: if_splits option.splits)

lemma initializer_declared:
  "forVariableDeclarations x (getVariableDeclarations sf) = Some i
     \<Longrightarrow> i \<in> set (declaredExpressions sf)"
  by (drule forVariableDeclarations_declared) (force simp add: declaredExpressions_def)

lemma return_declared:
  "f \<in> set (getFunctions sf) \<Longrightarrow> Some e \<in> set (returnStatements f)
     \<Longrightarrow> e \<in> set (declaredExpressions sf)"
  by (force simp add: declaredExpressions_def)

lemma settled_weaken: "settled S v' out \<Longrightarrow> v \<subseteq> v' \<Longrightarrow> settled S v out"
  by (auto simp add: settled_def)

lemma settled_undefined: "settled S v (Some (None, v))"
  by (simp add: settled_def)

lemma settlesD: "settles S V rec \<Longrightarrow> n \<in> S \<Longrightarrow> V \<subseteq> v \<Longrightarrow> settled S v (rec n v)"
  by (simp add: settles_def)

lemma forReturnStatements_settled:
  assumes "settles S V rec"
  shows "V \<subseteq> v \<Longrightarrow> \<forall>e. Some e \<in> set ss \<longrightarrow> e \<in> S
           \<Longrightarrow> settled S v (forReturnStatements rec ss v)"
proof (induction ss arbitrary: v)
  case Nil
  show ?case by (simp add: settled_undefined)
next
  case (Cons s ss)
  show ?case
  proof (cases s)
    case None
    with Cons show ?thesis by simp
  next
    case (Some e)
    with Cons.prems have "e \<in> S" by simp
    from settlesD [OF assms this Cons.prems(1)]
    obtain r v' where out: "rec e v = Some (r, v')" and sub: "v \<subseteq> v'"
      and obj: "\<forall>obj. r = Some obj \<longrightarrow> obj \<in> S \<and> isObjectLiteralExpression obj"
      by (auto simp add: settled_def)
    show ?thesis
    proof (cases r)
      case None
      have "settled S v' (forReturnStatements rec ss v')"
        using Cons.IH [of v'] Cons.prems sub by auto
      then show ?thesis
        using Some out None sub by (simp add: settled_weaken)
    next
      case (Some obj)
      then show ?thesis
        using \<open>s = Some e\<close> out sub obj by (simp add: settled_def)
    qed
  qed
qed

lemma forFunctionDeclarations_settled:
  assumes "settles S V rec"
  shows "V \<subseteq> v \<Longrightarrow> \<forall>f\<in>set fs. \<forall>e. Some e \<in> set (returnStatements f) \<longrightarrow> e \<in> S
           \<Longrightarrow> settled S v (forFunctionDeclarations rec x fs v)"
proof (induction fs arbitrary: v)
  case Nil
  show ?case by (simp add: settled_undefined)
next
  case (Cons f fs)
  show ?case
  proof (cases "functionName f = Some x")
    case False
    with Cons show ?thesis by simp
  next
    case True
    have "settled S v (forReturnStatements rec (returnStatements f) v)"
      using forReturnStatements_settled [OF assms Cons.prems(1)] Cons.prems(2) by simp
    then obtain r v' where out: "forReturnStatements rec (returnStatements f) v = Some (r, v')"
      and sub: "v \<subseteq> v'"
      and obj: "\<forall>obj. r = Some obj \<longrightarrow> obj \<in> S \<and> isObjectLiteralExpression obj"
      by (auto simp add: settled_def)
    show ?thesis
    proof (cases r)
      case None
      have "settled S v' (forFunctionDeclarations rec x fs v')"
        using Cons.IH [of v'] Cons.prems sub by auto
      then show ?thesis
        using True out None sub by (simp add: settled_weaken)
    next
      case (Some obj)
      then show ?thesis
        using True out sub obj by (simp add: settled_def)
    qed
  qed
qed

lemma functions_settled:
  assumes "settles S V rec" "V \<subseteq> v" "set (declaredExpressions sf) \<subseteq> S"
  shows "settled S v (forFunctionDeclarations rec x (getFunctions sf) v)"
  using assms(3) return_declared
  by (intro forFunctionDeclarations_settled [OF assms(1,2)]) blast

lemma resolveIdentifier_settled:
  assumes "settles S V rec" "V \<subseteq> v" "set (declaredExpressions sf) \<subseteq> S"
  shows "settled S v (resolveIdentifier rec sf n v)"
proof (cases n)
  case (Identifier x)
  show ?thesis
  proof (cases "forVariableDeclarations x (getVariableDeclarations sf)")
    case None
    with Identifier show ?thesis
      by (simp add: resolveIdentifier_def functions_settled [OF assms])
  next
    case (Some i)
    then have "i \<in> S" using initializer_declared assms(3) by blast
    with Identifier Some show ?thesis
      by (simp add: resolveIdentifier_def settlesD [OF assms(1) _ assms(2)])
  qed
qed (simp_all add: resolveIdentifier_def settled_undefined)

lemma knownWrapperArgument_arg:
  "knownWrapperArgument e args = Some a \<Longrightarrow> a \<in> set args"
  by (auto simp add: knownWrapperArgument_def split: node.splits if_splits list.splits)

lemma resolveFunctionCall_settled:
  assumes "settles S V rec" "V \<subseteq> v" "set (declaredExpressions sf) \<subseteq> S" "closed S" "n \<in> S"
  shows "settled S v (resolveFunctionCall rec sf n v)"
proof (cases n)
  case (CallExpression t e args)
  show ?thesis
  proof (cases "knownWrapperArgument e args")
    case (Some a)
    then have "a \<in> S"
      using knownWrapperArgument_arg closed_call(2) [OF assms(4)] assms(5) CallExpression
      by blast
    with CallExpression Some show ?thesis
      by (simp add: resolveFunctionCall_def settlesD [OF assms(1) _ assms(2)])
  next
    case None
    with CallExpression show ?thesis
      by (cases e)
         (simp_all add: resolveFunctionCall_def settled_undefined functions_settled [OF assms(1,2,3)])
  qed
qed (simp_all add: resolveFunctionCall_def settled_undefined)

lemma getProperty_member: "getProperty props n = Some p \<Longrightarrow> p \<in> set props"
  by (auto simp add: getProperty_def find_Some_iff)

lemma resolvePropertyAccess_settled:
  assumes "settles S V rec" "V \<subseteq> v" "closed S" "n \<in> S"
  shows "settled S v (resolvePropertyAccess rec sf n v)"
proof (cases n)
  case (PropertyAccessExpression t object name)
  then have "object \<in> S" using closed_access assms(3,4) by blast
  from settlesD [OF assms(1) this assms(2)]
  obtain r v' where out: "rec object v = Some (r, v')" and sub: "v \<subseteq> v'"
    and obj: "\<forall>obj. r = Some obj \<longrightarrow> obj \<in> S \<and> isObjectLiteralExpression obj"
    by (auto simp add: settled_def)
  have undef: "settled S v (Some (None, v'))"
    using sub by (simp add: settled_def)
  show ?thesis
  proof (cases r)
    case None
    with PropertyAccessExpression out undef show ?thesis
      by (simp add: resolvePropertyAccess_def)
  next
    case (Some resolved)
    then have inS: "resolved \<in> S" using obj by simp
    show ?thesis
    proof (cases resolved)
      case (ObjectLiteralExpression t' props)
      show ?thesis
      proof (cases "getProperty props name")
        case None
        with PropertyAccessExpression out Some ObjectLiteralExpression undef show ?thesis
          by (simp add: resolvePropertyAccess_def)
      next
        case found: (Some p)
        show ?thesis
        proof (cases "\<exists>k i. p = PropertyAssignment k (Some i)")
          case True
          then obtain k i where p: "p = PropertyAssignment k (Some i)" by blast
          then have "i \<in> S"
            using closed_initializer [OF assms(3)] inS ObjectLiteralExpression
              getProperty_member [OF found] by blast
          then have "settled S v' (rec i v')"
            using settlesD [OF assms(1)] assms(2) sub by blast
          then have "settled S v (rec i v')"
            using sub by (rule settled_weaken)
          with PropertyAccessExpression out Some ObjectLiteralExpression found p show ?thesis
            by (simp add: resolvePropertyAccess_def)
        next
          case False
          with PropertyAccessExpression out Some ObjectLiteralExpression found undef
          show ?thesis
            by (cases p) (auto simp add: resolvePropertyAccess_def split: option.splits)
        qed
      qed
    qed (use PropertyAccessExpression out Some undef in \<open>simp_all add: resolvePropertyAccess_def\<close>)
  qed
qed (simp_all add: resolvePropertyAccess_def settled_undefined)

lemma dispatch_settled:
  assumes "getText n \<notin> v \<Longrightarrow> settles S (insert (getText n) v) rec"
    and "set (declaredExpressions sf) \<subseteq> S" "closed S" "n \<in> S"
  shows "settled S v (dispatch rec sf n v)"
proof (cases "getText n \<in> v")
  case True
  then show ?thesis by (simp add: dispatch_def settled_undefined)
next
  case False
  note rec = assms(1) [OF False]
  have sub: "v \<subseteq> insert (getText n) v" by blast
  have undef: "settled S v (Some (None, insert (getText n) v))"
    by (auto simp add: settled_def)
  have "settled S (insert (getText n) v) (dispatch rec sf n v)"
  proof (cases n)
    case (ObjectLiteralExpression t props)
    with False assms(4) show ?thesis
      by (auto simp add: dispatch_def settled_def Let_def)
  next
    case (Identifier x)
    with False show ?thesis
      using resolveIdentifier_settled [OF rec subset_refl assms(2), of n]
      by (simp add: dispatch_def Let_def)
  next
    case (CallExpression t e args)
    with False show ?thesis
      using resolveFunctionCall_settled [OF rec subset_refl assms(2,3,4)]
      by (simp add: dispatch_def Let_def)
  next
    case (PropertyAccessExpression t e name)
    with False show ?thesis
      using resolvePropertyAccess_settled [OF rec subset_refl assms(3,4), of sf]
      by (simp add: dispatch_def Let_def)
  qed (use False in \<open>auto simp add: dispatch_def settled_def Let_def\<close>)
  then show ?thesis using sub by (rule settled_weaken)
qed

lemma card_unvisited_less:
  assumes "finite T" "t \<in> T" "t \<notin> v" "insert t v \<subseteq> v'"
  shows "card (T - v') < card (T - v)"
proof -
  have "T - v' \<subset> T - v" using assms by blast
  then show ?thesis using assms(1) by (simp add: psubset_card_mono)
qed

lemma resolveNodeRecursively_settled:
  assumes "closed S" "finite S" "set (declaredExpressions sf) \<subseteq> S"
  shows "n \<in> S \<Longrightarrow> card (getText ` S - v) < k
           \<Longrightarrow> settled S v (resolveNodeRecursively k sf n v)"
proof (induction k arbitrary: n v)
  case 0
  then show ?case by simp
next
  case (Suc k)
  have "settles S (insert (getText n) v) (resolveNodeRecursively k sf)" if new: "getText n \<notin> v"
    unfolding settles_def
  proof (intro ballI allI impI)
    fix m v'
    assume m: "m \<in> S" and v': "insert (getText n) v \<subseteq> v'"
    have "getText n \<in> getText ` S"
      using Suc.prems(1) by blast
    then have "card (getText ` S - v') < card (getText ` S - v)"
      using assms(2) by (intro card_unvisited_less [OF _ _ new v']) simp_all
    then have "card (getText ` S - v') < k" using Suc.prems(2) by simp
    then show "settled S v' (resolveNodeRecursively k sf m v')"
      using Suc.IH m by blast
  qed
  then show ?case
    using dispatch_settled [OF _ assms(3,1) Suc.prems(1)] by simp
qed

lemma resolve_settled:
  assumes "length (reachable node sf) \<le> k"
  shows "settled (set (reachable node sf)) {} (resolve k sf node {})"
proof -
  let ?S = "set (reachable node sf)"
  have "settles ?S (insert (getText node) {}) (resolveNodeRecursively k sf)"
    unfolding settles_def
  proof (intro ballI allI impI)
    fix m v'
    assume m: "m \<in> ?S" and v': "insert (getText node) {} \<subseteq> v'"
    have "getText node \<in> getText ` ?S"
      using node_reachable by blast
    then have "card (getText ` ?S - v') < card (getText ` ?S - {})"
      by (intro card_unvisited_less [OF _ _ _ v']) simp_all
    also have "\<dots> \<le> card ?S" by (simp add: card_image_le)
    also have "\<dots> \<le> length (reachable node sf)" by (rule card_length)
    finally have "card (getText ` ?S - v') < k" using assms by simp
    then show "settled ?S v' (resolveNodeRecursively k sf m v')"
      using resolveNodeRecursively_settled [OF closed_reachable _ declared_reachable] m
      by blast
  qed
  then show ?thesis
    unfolding resolve_def
    using dispatch_settled [OF _ declared_reachable closed_reachable node_reachable]
    by blast
qed

subsection \<open>More fuel changes nothing\<close>

lemma extendsD: "extends rec rec' \<Longrightarrow> rec n v = Some x \<Longrightarrow> rec' n v = Some x"
  unfolding extends_def by blast

lemma forReturnStatements_extends:
  assumes "extends rec rec'"
  shows "forReturnStatements rec ss v = Some x \<Longrightarrow> forReturnStatements rec' ss v = Some x"
proof (induction ss arbitrary: v)
  case Nil
  then show ?case by simp
next
  case (Cons s ss)
  show ?case
  proof (cases s)
    case None
    with Cons show ?thesis by simp
  next
    case (Some e)
    show ?thesis
    proof (cases "rec e v")
      case None
      with Some Cons.prems show ?thesis by simp
    next
      case (Some y)
      then have "rec' e v = Some y" by (rule extendsD [OF assms])
      with Some \<open>s = Some e\<close> Cons show ?thesis
        by (cases y) (auto split: option.splits)
    qed
  qed
qed

lemma forFunctionDeclarations_extends:
  assumes "extends rec rec'"
  shows "forFunctionDeclarations rec name fs v = Some x
           \<Longrightarrow> forFunctionDeclarations rec' name fs v = Some x"
proof (induction fs arbitrary: v)
  case Nil
  then show ?case by simp
next
  case (Cons f fs)
  show ?case
  proof (cases "functionName f = Some name")
    case False
    with Cons show ?thesis by simp
  next
    case True
    show ?thesis
    proof (cases "forReturnStatements rec (returnStatements f) v")
      case None
      with True Cons.prems show ?thesis by simp
    next
      case (Some y)
      then have "forReturnStatements rec' (returnStatements f) v = Some y"
        by (rule forReturnStatements_extends [OF assms])
      with Some True Cons show ?thesis
        by (cases y) (auto split: option.splits)
    qed
  qed
qed

lemma resolveIdentifier_extends:
  assumes "extends rec rec'"
  shows "resolveIdentifier rec sf n v = Some x \<Longrightarrow> resolveIdentifier rec' sf n v = Some x"
  using extendsD [OF assms] forFunctionDeclarations_extends [OF assms]
  by (cases x) (auto simp add: resolveIdentifier_def split: node.splits option.splits)

lemma resolveFunctionCall_extends:
  assumes "extends rec rec'"
  shows "resolveFunctionCall rec sf n v = Some x \<Longrightarrow> resolveFunctionCall rec' sf n v = Some x"
  using extendsD [OF assms] forFunctionDeclarations_extends [OF assms]
  by (cases x) (auto simp add: resolveFunctionCall_def split: node.splits option.splits)

lemma resolvePropertyAccess_extends:
  assumes "extends rec rec'"
  shows "resolvePropertyAccess rec sf n v = Some x
           \<Longrightarrow> resolvePropertyAccess rec' sf n v = Some x"
proof (cases n)
  case (PropertyAccessExpression t object name)
  assume run: "resolvePropertyAccess rec sf n v = Some x"
  show ?thesis
  proof (cases "rec object v")
    case None
    with PropertyAccessExpression run show ?thesis
      by (simp add: resolvePropertyAccess_def)
  next
    case (Some y)
    then have "rec' object v = Some y" by (rule extendsD [OF assms])
    with Some PropertyAccessExpression run extendsD [OF assms] show ?thesis
      by (cases x)
         (auto simp add: resolvePropertyAccess_def
           split: prod.splits option.splits node.splits element.splits)
  qed
qed (simp_all add: resolvePropertyAccess_def)

lemma dispatch_extends:
  assumes "extends rec rec'"
  shows "extends (dispatch rec sf) (dispatch rec' sf)"
  unfolding extends_def
proof (intro allI impI)
  fix n v x
  assume "dispatch rec sf n v = Some x"
  then show "dispatch rec' sf n v = Some x"
    using resolveIdentifier_extends [OF assms, of sf n "insert (getText n) v" x]
      resolveFunctionCall_extends [OF assms, of sf n "insert (getText n) v" x]
      resolvePropertyAccess_extends [OF assms, of sf n "insert (getText n) v" x]
    by (cases n) (simp_all add: dispatch_def Let_def split: if_splits)
qed

lemma resolveNodeRecursively_Suc: "extends (resolveNodeRecursively k sf) (resolveNodeRecursively (Suc k) sf)"
proof (induction k)
  case 0
  show ?case by (simp add: extends_def)
next
  case (Suc k)
  have "extends (dispatch (resolveNodeRecursively k sf) sf)
          (dispatch (resolveNodeRecursively (Suc k) sf) sf)"
    by (rule dispatch_extends [OF Suc])
  then show ?case by (simp only: resolveNodeRecursively.simps)
qed

lemma extends_refl: "extends rec rec"
  by (simp add: extends_def)

lemma extends_trans: "extends f g \<Longrightarrow> extends g h \<Longrightarrow> extends f h"
  by (simp add: extends_def)

lemma resolveNodeRecursively_mono:
  "k \<le> k' \<Longrightarrow> extends (resolveNodeRecursively k sf) (resolveNodeRecursively k' sf)"
proof (induction k' rule: dec_induct)
  case base
  show ?case by (rule extends_refl)
next
  case (step n)
  show ?case by (rule extends_trans [OF step.IH resolveNodeRecursively_Suc])
qed

lemma resolve_mono: "k \<le> k' \<Longrightarrow> resolve k sf n v = Some x \<Longrightarrow> resolve k' sf n v = Some x"
  unfolding resolve_def
  by (rule extendsD [OF dispatch_extends [OF resolveNodeRecursively_mono]])

lemma resolve_stable:
  assumes "resolveFuel node sf \<le> k"
  shows "resolve k sf node {} = resolve (resolveFuel node sf) sf node {}"
proof -
  obtain x where "resolve (resolveFuel node sf) sf node {} = Some x"
    using resolve_settled [of node sf "resolveFuel node sf"]
    by (auto simp add: settled_def resolveFuel_def)
  then show ?thesis using resolve_mono [OF assms] by simp
qed

lemma resolveVariableToObjectLiteral_fuel:
  assumes "resolveFuel node sf \<le> k"
  shows "\<exists>visited. resolve k sf node {} = Some (resolveVariableToObjectLiteral node sf, visited)"
proof -
  obtain r v where "resolve (resolveFuel node sf) sf node {} = Some (r, v)"
    using resolve_settled [of node sf "resolveFuel node sf"]
    by (auto simp add: settled_def resolveFuel_def)
  then show ?thesis
    using resolve_stable [OF assms] by (simp add: resolveVariableToObjectLiteral_def)
qed

lemma resolveVariableToObjectLiteral_reachable:
  assumes "resolveVariableToObjectLiteral e sf = Some obj"
  shows "obj \<in> set (reachable e sf)" "isObjectLiteralExpression obj"
proof -
  obtain r v where out: "resolve (resolveFuel e sf) sf e {} = Some (r, v)"
    and obj: "\<forall>obj. r = Some obj \<longrightarrow> obj \<in> set (reachable e sf) \<and> isObjectLiteralExpression obj"
    using resolve_settled [of e sf "resolveFuel e sf"]
    by (auto simp add: settled_def resolveFuel_def)
  from out assms have "r = Some obj"
    by (simp add: resolveVariableToObjectLiteral_def)
  with obj show "obj \<in> set (reachable e sf)" "isObjectLiteralExpression obj" by simp_all
qed

section \<open>Termination and order of the aggregation\<close>

lemma aggregatesD:
  "aggregates S fp V rec \<Longrightarrow> obj \<in> S \<Longrightarrow> V \<subseteq> fst state
     \<Longrightarrow> aggregated S fp state (rec obj state)"
  unfolding aggregates_def by blast

lemma aggregated_unchanged: "aggregated S fp state (Some state)"
  by (cases state) (simp add: aggregated_def)

lemma aggregated_step:
  assumes "aggregated S fp state (Some state')" "aggregated S fp state' out"
  shows "aggregated S fp state out"
proof -
  from assms(1) obtain rs where s': "state' = (fst state', snd state @ rs)"
    and sub: "fst state \<subseteq> fst state'" and rs: "set rs \<subseteq> routesOf S fp"
    by (auto simp add: aggregated_def)
  from assms(2) obtain v'' rs' where out: "out = Some (v'', snd state' @ rs')"
    and sub': "fst state' \<subseteq> v''" and rs': "set rs' \<subseteq> routesOf S fp"
    by (auto simp add: aggregated_def)
  have "snd state' = snd state @ rs" using s' by (metis snd_conv)
  then have "out = Some (v'', snd state @ (rs @ rs'))" using out by simp
  moreover have "fst state \<subseteq> v''" using sub sub' by blast
  moreover have "set (rs @ rs') \<subseteq> routesOf S fp" using rs rs' by simp
  ultimately show ?thesis unfolding aggregated_def by blast
qed

lemma forEachSpread_aggregated:
  assumes "aggregates S fp V rec" "closed S" "set (declaredExpressions sf) \<subseteq> S"
  shows "V \<subseteq> fst state \<Longrightarrow> \<forall>e. SpreadAssignment e \<in> set props \<longrightarrow> e \<in> S
           \<Longrightarrow> aggregated S fp state (forEachSpread rec sf props state)"
proof (induction props arbitrary: state)
  case Nil
  show ?case by (simp add: aggregated_unchanged)
next
  case (Cons p props)
  have rest: "aggregated S fp st (forEachSpread rec sf props st)" if "V \<subseteq> fst st" for st
    using Cons.IH [OF that] Cons.prems(2) by simp
  show ?case
  proof (cases "\<exists>e. p = SpreadAssignment e")
    case False
    then show ?thesis
      using rest [OF Cons.prems(1)] by (cases p) simp_all
  next
    case True
    then obtain e where p: "p = SpreadAssignment e" by blast
    then have e: "e \<in> S" using Cons.prems(2) by simp
    show ?thesis
    proof (cases "resolveVariableToObjectLiteral e sf")
      case None
      with p show ?thesis using rest [OF Cons.prems(1)] by simp
    next
      case (Some resolved)
      have "resolved \<in> S"
        using resolveVariableToObjectLiteral_reachable(1) [OF Some]
          reachable_subset [OF assms(2) e assms(3)] by blast
      then have step: "aggregated S fp state (rec resolved state)"
        using assms(1) Cons.prems(1) by (intro aggregatesD)
      then obtain state' where out: "rec resolved state = Some state'"
        by (auto simp add: aggregated_def)
      then have "V \<subseteq> fst state'"
        using step Cons.prems(1) by (auto simp add: aggregated_def)
      from rest [OF this] step show ?thesis
        unfolding out using p Some out by (simp add: aggregated_step)
    qed
  qed
qed

lemma own_routes: "obj \<in> S \<Longrightarrow> set (extractRoutesFromObjectLiteral obj fp) \<subseteq> routesOf S fp"
  by (auto simp add: routesOf_def)

lemma extractFromObject_aggregated:
  assumes "closed S" "finite S" "set (declaredExpressions sf) \<subseteq> S"
  shows "obj \<in> S \<Longrightarrow> card (getText ` S - fst state) < k
           \<Longrightarrow> aggregated S fp state (extractFromObject k sf fp obj state)"
proof (induction k arbitrary: obj state)
  case 0
  then show ?case by simp
next
  case (Suc k)
  show ?case
  proof (cases obj)
    case (ObjectLiteralExpression t props)
    show ?thesis
    proof (cases "t \<in> fst state")
      case True
      with ObjectLiteralExpression show ?thesis by (simp add: aggregated_unchanged)
    next
      case False
      let ?entered = "(insert t (fst state), snd state)"
      have gt: "getText obj = t" using ObjectLiteralExpression by simp
      have "aggregates S fp (insert t (fst state)) (extractFromObject k sf fp)"
        unfolding aggregates_def
      proof (intro ballI allI impI)
        fix m and st :: aggregation
        assume m: "m \<in> S" and st: "insert t (fst state) \<subseteq> fst st"
        have "getText obj \<in> getText ` S" using Suc.prems(1) by blast
        then have "card (getText ` S - fst st) < card (getText ` S - fst state)"
          using assms(2) False st unfolding gt
          by (intro card_unvisited_less [where t = t]) simp_all
        then have "card (getText ` S - fst st) < k" using Suc.prems(2) by simp
        then show "aggregated S fp st (extractFromObject k sf fp m st)"
          using Suc.IH m by blast
      qed
      moreover have "\<forall>e. SpreadAssignment e \<in> set props \<longrightarrow> e \<in> S"
        using closed_spread [OF assms(1)] Suc.prems(1) ObjectLiteralExpression by blast
      ultimately have "aggregated S fp ?entered
          (forEachSpread (extractFromObject k sf fp) sf props ?entered)"
        using forEachSpread_aggregated [OF _ assms(1,3), of fp "insert t (fst state)" _ ?entered]
        by simp
      then obtain v' rs where
        out: "forEachSpread (extractFromObject k sf fp) sf props ?entered = Some (v', snd state @ rs)"
        and sub: "insert t (fst state) \<subseteq> v'" and rs: "set rs \<subseteq> routesOf S fp"
        by (auto simp add: aggregated_def)
      have "set (rs @ extractRoutesFromObjectLiteral obj fp) \<subseteq> routesOf S fp"
        using rs own_routes [OF Suc.prems(1)] by simp
      moreover have "fst state \<subseteq> v'" using sub by blast
      moreover have "extractFromObject (Suc k) sf fp obj state =
          Some (v', snd state @ (rs @ extractRoutesFromObjectLiteral obj fp))"
        using ObjectLiteralExpression False out by simp
      ultimately show ?thesis unfolding aggregated_def by blast
    qed
  qed (simp_all add: aggregated_unchanged)
qed

lemma extractRoutesWithSpreads_aggregated:
  assumes "extractFuel obj sf \<le> k"
  shows "aggregated (set (reachable obj sf)) fp ({}, []) (extractFromObject k sf fp obj ({}, []))"
proof -
  let ?S = "set (reachable obj sf)"
  have "card (getText ` ?S - {}) \<le> card ?S" by (simp add: card_image_le)
  also have "\<dots> \<le> length (reachable obj sf)" by (rule card_length)
  finally have "card (getText ` ?S - fst ({}, [])) < k"
    using assms by (simp add: extractFuel_def)
  then show ?thesis
    using extractFromObject_aggregated [OF closed_reachable _ declared_reachable node_reachable]
    by blast
qed

lemma forEachSpread_extends:
  assumes "extends rec rec'"
  shows "forEachSpread rec sf props state = Some x \<Longrightarrow> forEachSpread rec' sf props state = Some x"
proof (induction props arbitrary: state)
  case Nil
  then show ?case by simp
next
  case (Cons p props)
  show ?case
  proof (cases "\<exists>e resolved. p = SpreadAssignment e
                  \<and> resolveVariableToObjectLiteral e sf = Some resolved")
    case False
    with Cons show ?thesis by (cases p) (auto split: option.splits)
  next
    case True
    then obtain e resolved where p: "p = SpreadAssignment e"
      and r: "resolveVariableToObjectLiteral e sf = Some resolved" by blast
    show ?thesis
    proof (cases "rec resolved state")
      case None
      with p r Cons.prems show ?thesis by simp
    next
      case (Some state')
      then have "rec' resolved state = Some state'" by (rule extendsD [OF assms])
      with Some p r Cons show ?thesis by simp
    qed
  qed
qed

lemma extractFromObject_Suc:
  "extends (extractFromObject k sf fp) (extractFromObject (Suc k) sf fp)"
proof (induction k)
  case 0
  show ?case by (simp add: extends_def)
next
  case (Suc k)
  show ?case
    unfolding extends_def
  proof (intro allI impI)
    fix obj state x
    assume run: "extractFromObject (Suc k) sf fp obj state = Some x"
    show "extractFromObject (Suc (Suc k)) sf fp obj state = Some x"
    proof (cases obj)
      case (ObjectLiteralExpression t props)
      show ?thesis
      proof (cases "t \<in> fst state")
        case True
        with ObjectLiteralExpression run show ?thesis by simp
      next
        case False
        let ?entered = "(insert t (fst state), snd state)"
        from run ObjectLiteralExpression False
        obtain y where y: "forEachSpread (extractFromObject k sf fp) sf props ?entered = Some y"
          by (cases "forEachSpread (extractFromObject k sf fp) sf props ?entered") simp_all
        then have "forEachSpread (extractFromObject (Suc k) sf fp) sf props ?entered = Some y"
          by (rule forEachSpread_extends [OF Suc])
        with y run ObjectLiteralExpression False show ?thesis by simp
      qed
    qed (use run in simp_all)
  qed
qed

lemma extractFromObject_mono:
  "k \<le> k' \<Longrightarrow> extends (extractFromObject k sf fp) (extractFromObject k' sf fp)"
proof (induction k' rule: dec_induct)
  case base
  show ?case by (rule extends_refl)
next
  case (step n)
  show ?case by (rule extends_trans [OF step.IH extractFromObject_Suc])
qed

lemma extractFromObject_stable:
  assumes "extractFuel obj sf \<le> k"
  shows "extractFromObject k sf fp obj ({}, []) =
           extractFromObject (extractFuel obj sf) sf fp obj ({}, [])"
proof -
  obtain x where "extractFromObject (extractFuel obj sf) sf fp obj ({}, []) = Some x"
    using extractRoutesWithSpreads_aggregated [of obj sf "extractFuel obj sf" fp]
    by (auto simp add: aggregated_def)
  then show ?thesis
    using extendsD [OF extractFromObject_mono [OF assms]] by simp
qed

lemma extractRoutesWithSpreads_fuel:
  assumes "extractFuel obj sf \<le> k" "isObjectLiteralExpression obj"
  shows "\<exists>visited. extractFromObject k sf fp obj ({}, []) =
           Some (visited, extractRoutesWithSpreads obj sf fp)"
proof -
  obtain v rs where "extractFromObject (extractFuel obj sf) sf fp obj ({}, []) = Some (v, rs)"
    using extractRoutesWithSpreads_aggregated [of obj sf "extractFuel obj sf" fp]
    by (auto simp add: aggregated_def)
  then show ?thesis
    using extractFromObject_stable [OF assms(1)] assms(2)
    by (simp add: extractRoutesWithSpreads_def)
qed

lemma forEachSpread_spreadRoutes:
  assumes "\<And>obj v acc. rec obj (v, acc) = map_option (\<lambda>(v', rs). (v', acc @ rs)) (flat obj v)"
  shows "forEachSpread rec sf props (v, acc) =
           map_option (\<lambda>(v', rs). (v', acc @ rs)) (spreadRoutes flat sf props v)"
proof (induction props arbitrary: v acc)
  case Nil
  show ?case by simp
next
  case (Cons p props)
  show ?case
  proof (cases "\<exists>e. p = SpreadAssignment e")
    case False
    then show ?thesis using Cons.IH by (cases p) simp_all
  next
    case True
    then obtain e where p: "p = SpreadAssignment e" by blast
    show ?thesis
    proof (cases "resolveVariableToObjectLiteral e sf")
      case None
      with p Cons.IH show ?thesis by simp
    next
      case (Some resolved)
      show ?thesis
      proof (cases "flat resolved v")
        case None
        with p Some assms show ?thesis by simp
      next
        case flat: (Some y)
        obtain v1 r1 where y: "y = (v1, r1)" by (cases y)
        have "rec resolved (v, acc) = Some (v1, acc @ r1)"
          using assms flat y by simp
        with p Some flat y Cons.IH [of v1 "acc @ r1"] show ?thesis
          by (cases "spreadRoutes flat sf props v1") auto
      qed
    qed
  qed
qed

lemma extractFromObject_flattenedRoutes:
  "extractFromObject k sf fp obj (v, acc) =
     map_option (\<lambda>(v', rs). (v', acc @ rs)) (flattenedRoutes k sf fp obj v)"
proof (induction k arbitrary: obj v acc)
  case 0
  show ?case by simp
next
  case (Suc k)
  show ?case
  proof (cases obj)
    case (ObjectLiteralExpression t props)
    show ?thesis
    proof (cases "t \<in> v")
      case True
      with ObjectLiteralExpression show ?thesis by simp
    next
      case False
      have "forEachSpread (extractFromObject k sf fp) sf props (insert t v, acc) =
              map_option (\<lambda>(v', rs). (v', acc @ rs))
                (spreadRoutes (flattenedRoutes k sf fp) sf props (insert t v))"
        by (rule forEachSpread_spreadRoutes) (rule Suc.IH)
      with ObjectLiteralExpression False show ?thesis
        by (cases "spreadRoutes (flattenedRoutes k sf fp) sf props (insert t v)")
           (auto simp add: extractRoutes_objectLiteral)
    qed
  qed simp_all
qed

lemmas aggregator_defs =
  extractRoutesWithSpreads_def extractFuel_def extractRoutesFromObjectLiteral_def
  pushRoute_def routeInfo_def stripQuotes_def isQuote_def

text \<open>
  Claim C2. Resolution and aggregation terminate on every input: with the counter at
  \<open>resolveFuel\<close> (one unit per reachable expression) or above, \<^verbatim>\<open>resolve\<close> returns, and
  what it returns is the value of \<open>resolveVariableToObjectLiteral\<close>, which is
  \<^verbatim>\<open>undefined\<close> or an object literal among the reachable expressions; with the counter at
  \<open>extractFuel\<close> or above, \<^verbatim>\<open>extractFromObject\<close> returns, with the routes of
  \<open>extractRoutesWithSpreads\<close>. A run that returns with some counter returns the same with
  every larger one, so the counter decides nothing but whether the run is cut short. A
  node that is not an object literal aggregates to no routes. A node whose text was already visited is unresolved, and an object literal
  whose text was already visited adds no route: this is how an alias cycle or a
  self-spreading object ends. The model has no outcome for a thrown error, since the
  source has no statement that throws.
\<close>

theorem resolution_and_aggregation_terminate:
  "(\<forall>k. resolveFuel node sf \<le> k \<longrightarrow>
      (\<exists>visited. resolve k sf node {} = Some (resolveVariableToObjectLiteral node sf, visited)))
   \<and> (\<forall>k k' v x. resolve k sf node v = Some x \<and> k \<le> k' \<longrightarrow> resolve k' sf node v = Some x)
   \<and> (\<forall>r. resolveVariableToObjectLiteral node sf = Some r \<longrightarrow>
          isObjectLiteralExpression r \<and> r \<in> set (reachable node sf))
   \<and> (\<forall>k. isObjectLiteralExpression obj \<and> extractFuel obj sf \<le> k \<longrightarrow>
          (\<exists>visited. extractFromObject k sf fp obj ({}, []) =
             Some (visited, extractRoutesWithSpreads obj sf fp)))
   \<and> (\<forall>k k' state x. extractFromObject k sf fp obj state = Some x \<and> k \<le> k' \<longrightarrow>
          extractFromObject k' sf fp obj state = Some x)
   \<and> (\<not> isObjectLiteralExpression obj \<longrightarrow> extractRoutesWithSpreads obj sf fp = [])
   \<and> (\<forall>k v. getText node \<in> v \<longrightarrow>
          resolve k sf node v = Some (None, v)
          \<and> resolveNodeRecursively (Suc k) sf node v = Some (None, v))
   \<and> (\<forall>k t props state. t \<in> fst state \<longrightarrow>
          extractFromObject (Suc k) sf fp (ObjectLiteralExpression t props) state = Some state)"
proof -
  have a: "\<forall>k. resolveFuel node sf \<le> k \<longrightarrow>
      (\<exists>visited. resolve k sf node {} = Some (resolveVariableToObjectLiteral node sf, visited))"
    using resolveVariableToObjectLiteral_fuel by blast
  have a': "\<forall>k k' v x. resolve k sf node v = Some x \<and> k \<le> k' \<longrightarrow> resolve k' sf node v = Some x"
    using resolve_mono by blast
  have b: "\<forall>r. resolveVariableToObjectLiteral node sf = Some r \<longrightarrow>
          isObjectLiteralExpression r \<and> r \<in> set (reachable node sf)"
    using resolveVariableToObjectLiteral_reachable by blast
  have c: "\<forall>k. isObjectLiteralExpression obj \<and> extractFuel obj sf \<le> k \<longrightarrow>
          (\<exists>visited. extractFromObject k sf fp obj ({}, []) =
             Some (visited, extractRoutesWithSpreads obj sf fp))"
    using extractRoutesWithSpreads_fuel by blast
  have c': "\<forall>k k' state x. extractFromObject k sf fp obj state = Some x \<and> k \<le> k' \<longrightarrow>
          extractFromObject k' sf fp obj state = Some x"
    using extendsD [OF extractFromObject_mono] by blast
  have d: "\<not> isObjectLiteralExpression obj \<longrightarrow> extractRoutesWithSpreads obj sf fp = []"
    by (simp add: extractRoutesWithSpreads_def)
  have e: "\<forall>k v. getText node \<in> v \<longrightarrow>
          resolve k sf node v = Some (None, v)
          \<and> resolveNodeRecursively (Suc k) sf node v = Some (None, v)"
    by (simp add: resolve_def dispatch_def)
  have f: "\<forall>k t props state. t \<in> fst state \<longrightarrow>
          extractFromObject (Suc k) sf fp (ObjectLiteralExpression t props) state = Some state"
    by simp
  from a a' b c c' d e f show ?thesis by (intro conjI)
qed

theorem resolution_and_aggregation_terminate_witness:
  "resolve (resolveFuel (Identifier ''a'') cyclicFile) cyclicFile (Identifier ''a'') {} =
     Some (None, {''b'', ''a''})
   \<and> resolveVariableToObjectLiteral (Identifier ''a'') cyclicFile = None
   \<and> isObjectLiteralExpression selfLiteral
   \<and> (\<exists>visited. extractFromObject (extractFuel selfLiteral cyclicFile) cyclicFile ''a.ts''
          selfLiteral ({}, []) =
        Some (visited, [\<lparr>path = ''own'', file' = ''a.ts'', paramText = [], returnType = ''void''\<rparr>]))
   \<and> resolveNodeRecursively (Suc 0) cyclicFile (Identifier ''a'') {''b'', ''a''} =
       Some (None, {''b'', ''a''})
   \<and> extractFromObject (Suc 0) cyclicFile ''a.ts'' selfLiteral ({''{ ...self, own() {} }''}, []) =
       Some ({''{ ...self, own() {} }''}, [])"
proof -
  note t = resolution_and_aggregation_terminate
    [of "Identifier ''a''" cyclicFile selfLiteral "''a.ts''"]
  have run: "resolve (resolveFuel (Identifier ''a'') cyclicFile) cyclicFile (Identifier ''a'') {} =
          Some (None, {''b'', ''a''})"
    by (simp add: resolver_defs cyclicFile_def selfLiteral_def)
  have "\<exists>visited. resolve (resolveFuel (Identifier ''a'') cyclicFile) cyclicFile
          (Identifier ''a'') {} =
          Some (resolveVariableToObjectLiteral (Identifier ''a'') cyclicFile, visited)"
    by (rule t [THEN conjunct1, rule_format]) (rule order_refl)
  with run have undefined: "resolveVariableToObjectLiteral (Identifier ''a'') cyclicFile = None"
    by simp
  have lit: "isObjectLiteralExpression selfLiteral"
    by (simp add: selfLiteral_def)
  have routes: "extractRoutesWithSpreads selfLiteral cyclicFile ''a.ts'' =
      [\<lparr>path = ''own'', file' = ''a.ts'', paramText = [], returnType = ''void''\<rparr>]"
    by (simp add: resolver_defs aggregator_defs cyclicFile_def selfLiteral_def)
  have "\<exists>visited. extractFromObject (extractFuel selfLiteral cyclicFile) cyclicFile ''a.ts''
          selfLiteral ({}, []) =
        Some (visited, extractRoutesWithSpreads selfLiteral cyclicFile ''a.ts'')"
    by (rule t [THEN conjunct2, THEN conjunct2, THEN conjunct2, THEN conjunct1, rule_format])
       (simp add: lit)
  then have total: "\<exists>visited. extractFromObject (extractFuel selfLiteral cyclicFile) cyclicFile
          ''a.ts'' selfLiteral ({}, []) =
        Some (visited, [\<lparr>path = ''own'', file' = ''a.ts'', paramText = [], returnType = ''void''\<rparr>])"
    by (simp only: routes)
  have "getText (Identifier ''a'') \<in> {''b'', ''a''}" by simp
  then have again: "resolveNodeRecursively (Suc 0) cyclicFile (Identifier ''a'') {''b'', ''a''} =
       Some (None, {''b'', ''a''})"
    by (rule t [THEN conjunct2, THEN conjunct2, THEN conjunct2, THEN conjunct2, THEN conjunct2,
          THEN conjunct2, THEN conjunct1, rule_format, THEN conjunct2])
  have "''{ ...self, own() {} }'' \<in> fst ({''{ ...self, own() {} }''}, [] :: RouteInfo list)"
    by simp
  then have "extractFromObject (Suc 0) cyclicFile ''a.ts''
       (ObjectLiteralExpression ''{ ...self, own() {} }''
          [SpreadAssignment (Identifier ''self''), MethodDeclaration ''own'' [] ''void''])
       ({''{ ...self, own() {} }''}, []) =
       Some ({''{ ...self, own() {} }''}, [])"
    by (rule t [THEN conjunct2, THEN conjunct2, THEN conjunct2, THEN conjunct2, THEN conjunct2,
          THEN conjunct2, THEN conjunct2, rule_format])
  then have spread: "extractFromObject (Suc 0) cyclicFile ''a.ts'' selfLiteral
       ({''{ ...self, own() {} }''}, []) = Some ({''{ ...self, own() {} }''}, [])"
    by (simp only: selfLiteral_def)
  from run undefined lit total again spread show ?thesis by (intro conjI)
qed

text \<open>
  Claim C1. For every object literal, with any accumulated list and visited set,
  \<^verbatim>\<open>extractFromObject\<close> appends exactly the routes that the specification's flattening
  gives: for each spread entry in source order the routes of the literal it resolves
  to, flattened the same way (depth first), and only after all spreads the literal's own
  routes. So the result of \<open>extractRoutesWithSpreads\<close> is the routes from the spreads
  followed by the extractor's routes of the literal itself. The paths of the result need
  not be distinct.
\<close>

theorem aggregation_is_depth_first:
  "(\<forall>k obj v acc. extractFromObject k sf fp obj (v, acc) =
       map_option (\<lambda>(v', rs). (v', acc @ rs)) (flattenedRoutes k sf fp obj v))
   \<and> (\<exists>visited fromSpreads.
         spreadRoutes (flattenedRoutes (length (reachable (ObjectLiteralExpression t props) sf)) sf fp)
           sf props {t} = Some (visited, fromSpreads)
         \<and> extractRoutesWithSpreads (ObjectLiteralExpression t props) sf fp =
             fromSpreads @ extractRoutesFromObjectLiteral (ObjectLiteralExpression t props) fp)
   \<and> (\<exists>obj sf fp. \<not> distinct (map path (extractRoutesWithSpreads obj sf fp)))"
proof -
  let ?obj = "ObjectLiteralExpression t props"
  let ?n = "length (reachable ?obj sf)"
  obtain visited where
    run: "extractFromObject (Suc ?n) sf fp ?obj ({}, []) =
            Some (visited, extractRoutesWithSpreads ?obj sf fp)"
    using extractRoutesWithSpreads_fuel [of ?obj sf "extractFuel ?obj sf" fp]
    by (auto simp add: extractFuel_def)
  have "extractFromObject (Suc ?n) sf fp ?obj ({}, []) =
          map_option (\<lambda>(v', rs). (v', [] @ rs)) (flattenedRoutes (Suc ?n) sf fp ?obj {})"
    by (rule extractFromObject_flattenedRoutes)
  with run have flat: "flattenedRoutes (Suc ?n) sf fp ?obj {} =
      Some (visited, extractRoutesWithSpreads ?obj sf fp)"
    by (cases "flattenedRoutes (Suc ?n) sf fp ?obj {}") auto
  then obtain v' fromSpreads where
    spreads: "spreadRoutes (flattenedRoutes ?n sf fp) sf props {t} = Some (v', fromSpreads)"
    by (cases "spreadRoutes (flattenedRoutes ?n sf fp) sf props {t}") auto
  with flat have "extractRoutesWithSpreads ?obj sf fp =
      fromSpreads @ extractRoutesFromObjectLiteral ?obj fp"
    by (simp add: extractRoutes_objectLiteral)
  with spreads have b: "\<exists>visited fromSpreads.
         spreadRoutes (flattenedRoutes ?n sf fp) sf props {t} = Some (visited, fromSpreads)
         \<and> extractRoutesWithSpreads ?obj sf fp =
             fromSpreads @ extractRoutesFromObjectLiteral ?obj fp"
    by blast
  have "extractRoutesWithSpreads spreadingLiteral spreadingFile ''a.ts'' =
     [\<lparr>path = ''ping'', file' = ''a.ts'', paramText = [], returnType = ''void''\<rparr>,
      \<lparr>path = ''ping'', file' = ''a.ts'', paramText = [], returnType = ''void''\<rparr>]"
    by (simp add: resolver_defs aggregator_defs spreadingFile_def spreadingLiteral_def
        baseLiteral_def)
  then have "\<not> distinct (map path (extractRoutesWithSpreads spreadingLiteral spreadingFile ''a.ts''))"
    by simp
  then have c: "\<exists>obj sf fp. \<not> distinct (map path (extractRoutesWithSpreads obj sf fp))"
    by blast
  have a: "\<forall>k obj v acc. extractFromObject k sf fp obj (v, acc) =
       map_option (\<lambda>(v', rs). (v', acc @ rs)) (flattenedRoutes k sf fp obj v)"
    using extractFromObject_flattenedRoutes by blast
  from a b c show ?thesis by (intro conjI)
qed

theorem aggregation_is_depth_first_witness:
  "extractRoutesWithSpreads spreadingLiteral spreadingFile ''a.ts'' =
     extractRoutesFromObjectLiteral baseLiteral ''a.ts''
     @ extractRoutesFromObjectLiteral spreadingLiteral ''a.ts''
   \<and> spreadRoutes
         (flattenedRoutes (length (reachable spreadingLiteral spreadingFile)) spreadingFile ''a.ts'')
         spreadingFile (getProperties spreadingLiteral) {getText spreadingLiteral} =
       Some ({''{ ping() {} }'', getText spreadingLiteral},
             extractRoutesFromObjectLiteral baseLiteral ''a.ts'')"
proof -
  obtain visited fromSpreads where
    spreads: "spreadRoutes
         (flattenedRoutes (length (reachable spreadingLiteral spreadingFile)) spreadingFile ''a.ts'')
         spreadingFile (getProperties spreadingLiteral) {getText spreadingLiteral} =
       Some (visited, fromSpreads)"
    and all: "extractRoutesWithSpreads spreadingLiteral spreadingFile ''a.ts'' =
       fromSpreads @ extractRoutesFromObjectLiteral spreadingLiteral ''a.ts''"
    using aggregation_is_depth_first
      [of spreadingFile "''a.ts''" "getText spreadingLiteral" "getProperties spreadingLiteral",
        THEN conjunct2, THEN conjunct1]
    unfolding spreadingLiteral_def getText.simps getProperties.simps by blast
  have "spreadRoutes
         (flattenedRoutes (length (reachable spreadingLiteral spreadingFile)) spreadingFile ''a.ts'')
         spreadingFile (getProperties spreadingLiteral) {getText spreadingLiteral} =
       Some ({''{ ping() {} }'', getText spreadingLiteral},
             extractRoutesFromObjectLiteral baseLiteral ''a.ts'')"
    by (simp add: resolver_defs aggregator_defs spreadingFile_def spreadingLiteral_def
        baseLiteral_def routeOf_def nameText_def)
  with spreads all show ?thesis by simp
qed

section \<open>Unresolvable spreads\<close>

lemma forEachSpread_skip:
  assumes "resolveVariableToObjectLiteral e sf = None"
  shows "forEachSpread rec sf (before @ SpreadAssignment e # after) state =
           forEachSpread rec sf (before @ after) state"
proof (induction before arbitrary: state)
  case Nil
  show ?case using assms by simp
next
  case (Cons p before)
  show ?case
  proof (cases "\<exists>e'. p = SpreadAssignment e'")
    case False
    then show ?thesis using Cons.IH by (cases p) simp_all
  next
    case True
    then obtain e' where "p = SpreadAssignment e'" by blast
    then show ?thesis
      using Cons.IH by (simp split: option.splits)
  qed
qed

lemma extractFromObject_skip:
  assumes "resolveVariableToObjectLiteral e sf = None"
  shows "extractFromObject k sf fp (ObjectLiteralExpression t (before @ SpreadAssignment e # after))
           state =
         extractFromObject k sf fp (ObjectLiteralExpression t (before @ after)) state"
proof -
  have own: "extractRoutesFromObjectLiteral
               (ObjectLiteralExpression t (before @ SpreadAssignment e # after)) fp =
             extractRoutesFromObjectLiteral (ObjectLiteralExpression t (before @ after)) fp"
    by (simp add: extractRoutes_objectLiteral)
  show ?thesis
    by (cases k)
       (simp_all add: forEachSpread_skip [OF assms] own cong: option.case_cong prod.case_cong)
qed

lemma spreadRoutes_skip:
  assumes "resolveVariableToObjectLiteral e sf = None"
  shows "spreadRoutes flat sf (before @ SpreadAssignment e # after) v =
           spreadRoutes flat sf (before @ after) v"
proof (induction before arbitrary: v)
  case Nil
  show ?case using assms by simp
next
  case (Cons p before)
  show ?case
  proof (cases "\<exists>e'. p = SpreadAssignment e'")
    case False
    then show ?thesis using Cons.IH by (cases p) simp_all
  next
    case True
    then obtain e' where "p = SpreadAssignment e'" by blast
    then show ?thesis
      using Cons.IH by (simp split: option.splits prod.splits)
  qed
qed

lemma extractRoutesWithSpreads_spreads_then_own:
  "\<exists>visited fromSpreads.
     spreadRoutes (flattenedRoutes (length (reachable (ObjectLiteralExpression t props) sf)) sf fp)
       sf props {t} = Some (visited, fromSpreads)
     \<and> extractRoutesWithSpreads (ObjectLiteralExpression t props) sf fp =
         fromSpreads @ extractRoutesFromObjectLiteral (ObjectLiteralExpression t props) fp"
proof -
  let ?obj = "ObjectLiteralExpression t props"
  let ?n = "length (reachable ?obj sf)"
  obtain visited where
    run: "extractFromObject (Suc ?n) sf fp ?obj ({}, []) =
            Some (visited, extractRoutesWithSpreads ?obj sf fp)"
    using extractRoutesWithSpreads_fuel [of ?obj sf "extractFuel ?obj sf" fp]
    by (auto simp add: extractFuel_def)
  have "extractFromObject (Suc ?n) sf fp ?obj ({}, []) =
          map_option (\<lambda>(v', rs). (v', [] @ rs)) (flattenedRoutes (Suc ?n) sf fp ?obj {})"
    by (rule extractFromObject_flattenedRoutes)
  with run have flat: "flattenedRoutes (Suc ?n) sf fp ?obj {} =
      Some (visited, extractRoutesWithSpreads ?obj sf fp)"
    by (cases "flattenedRoutes (Suc ?n) sf fp ?obj {}") auto
  then obtain v' fromSpreads where
    spreads: "spreadRoutes (flattenedRoutes ?n sf fp) sf props {t} = Some (v', fromSpreads)"
    by (cases "spreadRoutes (flattenedRoutes ?n sf fp) sf props {t}") auto
  with flat have "extractRoutesWithSpreads ?obj sf fp =
      fromSpreads @ extractRoutesFromObjectLiteral ?obj fp"
    by (simp add: extractRoutes_objectLiteral)
  with spreads show ?thesis by blast
qed

text \<open>
  Claim C8. A spread entry whose expression does not resolve to an object literal
  contributes nothing and changes nothing else. The routes returned for the literal are
  the routes of its remaining entries: the routes that the other spreads give, in source
  order and flattened as the specification words it, followed by the literal's own
  routes, which are those of the literal without the entry. So the aggregation of the
  literal is the aggregation of the same literal (same text) without that entry, for the
  whole run and for every step of it. No error arises; the run returns as for any input.
\<close>

theorem unresolvable_spread_is_skipped:
  assumes "resolveVariableToObjectLiteral e sf = None"
  shows "extractRoutesWithSpreads
           (ObjectLiteralExpression t (before @ SpreadAssignment e # after)) sf fp =
         extractRoutesWithSpreads (ObjectLiteralExpression t (before @ after)) sf fp
     \<and> (\<forall>k state.
          extractFromObject k sf fp
            (ObjectLiteralExpression t (before @ SpreadAssignment e # after)) state =
          extractFromObject k sf fp (ObjectLiteralExpression t (before @ after)) state)
     \<and> (\<forall>rec state.
          forEachSpread rec sf (before @ SpreadAssignment e # after) state =
          forEachSpread rec sf (before @ after) state)
     \<and> (\<exists>visited fromSiblings.
          spreadRoutes
            (flattenedRoutes
               (length (reachable
                  (ObjectLiteralExpression t (before @ SpreadAssignment e # after)) sf)) sf fp)
            sf (before @ after) {t} = Some (visited, fromSiblings)
          \<and> extractRoutesWithSpreads
               (ObjectLiteralExpression t (before @ SpreadAssignment e # after)) sf fp =
             fromSiblings
             @ extractRoutesFromObjectLiteral (ObjectLiteralExpression t (before @ after)) fp)"
proof -
  let ?with = "ObjectLiteralExpression t (before @ SpreadAssignment e # after)"
  let ?without = "ObjectLiteralExpression t (before @ after)"
  let ?k = "max (extractFuel ?with sf) (extractFuel ?without sf)"
  let ?flat = "flattenedRoutes (length (reachable ?with sf)) sf fp"
  obtain v1 where
    "extractFromObject ?k sf fp ?with ({}, []) = Some (v1, extractRoutesWithSpreads ?with sf fp)"
    using extractRoutesWithSpreads_fuel [of ?with sf ?k fp] by auto
  moreover obtain v2 where
    "extractFromObject ?k sf fp ?without ({}, []) =
       Some (v2, extractRoutesWithSpreads ?without sf fp)"
    using extractRoutesWithSpreads_fuel [of ?without sf ?k fp] by auto
  ultimately have same:
    "extractRoutesWithSpreads ?with sf fp = extractRoutesWithSpreads ?without sf fp"
    using extractFromObject_skip [OF assms, of ?k fp t before after "({}, [])"] by simp
  have own: "extractRoutesFromObjectLiteral ?with fp = extractRoutesFromObjectLiteral ?without fp"
    by (simp add: extractRoutes_objectLiteral)
  obtain visited fromSpreads where
    "spreadRoutes ?flat sf (before @ SpreadAssignment e # after) {t} = Some (visited, fromSpreads)"
    and "extractRoutesWithSpreads ?with sf fp =
           fromSpreads @ extractRoutesFromObjectLiteral ?with fp"
    using extractRoutesWithSpreads_spreads_then_own
      [of t "before @ SpreadAssignment e # after" sf fp]
    by blast
  then have siblings: "\<exists>visited fromSiblings.
      spreadRoutes ?flat sf (before @ after) {t} = Some (visited, fromSiblings)
      \<and> extractRoutesWithSpreads ?with sf fp =
          fromSiblings @ extractRoutesFromObjectLiteral ?without fp"
    unfolding spreadRoutes_skip [OF assms] own by blast
  have steps: "\<forall>k state. extractFromObject k sf fp ?with state =
      extractFromObject k sf fp ?without state"
    using extractFromObject_skip [OF assms] by blast
  have loop: "\<forall>rec state. forEachSpread rec sf (before @ SpreadAssignment e # after) state =
      forEachSpread rec sf (before @ after) state"
    using forEachSpread_skip [OF assms] by blast
  from same steps loop siblings show ?thesis by (intro conjI)
qed

theorem unresolvable_spread_is_skipped_witness:
  "resolveVariableToObjectLiteral (Identifier ''missing'') spreadingFile = None
   \<and> extractRoutesWithSpreads spreadingLiteral spreadingFile ''a.ts'' =
       extractRoutesWithSpreads
         (ObjectLiteralExpression ''{ ...a, ...missing, ...base, ping() {} }''
            [SpreadAssignment (Identifier ''a''), SpreadAssignment (Identifier ''base''),
             MethodDeclaration ''ping'' [] ''void''])
         spreadingFile ''a.ts''
   \<and> extractRoutesWithSpreads spreadingLiteral spreadingFile ''a.ts'' =
       [\<lparr>path = ''ping'', file' = ''a.ts'', paramText = [], returnType = ''void''\<rparr>,
        \<lparr>path = ''ping'', file' = ''a.ts'', paramText = [], returnType = ''void''\<rparr>]
   \<and> spreadRoutes
         (flattenedRoutes (length (reachable spreadingLiteral spreadingFile)) spreadingFile ''a.ts'')
         spreadingFile
         [SpreadAssignment (Identifier ''a''), SpreadAssignment (Identifier ''base''),
          MethodDeclaration ''ping'' [] ''void'']
         {''{ ...a, ...missing, ...base, ping() {} }''} =
       Some ({''{ ping() {} }'', ''{ ...a, ...missing, ...base, ping() {} }''},
             extractRoutesFromObjectLiteral baseLiteral ''a.ts'')
   \<and> extractRoutesWithSpreads spreadingLiteral spreadingFile ''a.ts'' =
       extractRoutesFromObjectLiteral baseLiteral ''a.ts''
       @ extractRoutesFromObjectLiteral
           (ObjectLiteralExpression ''{ ...a, ...missing, ...base, ping() {} }''
              [SpreadAssignment (Identifier ''a''), SpreadAssignment (Identifier ''base''),
               MethodDeclaration ''ping'' [] ''void''])
           ''a.ts''"
proof -
  have missing: "resolveVariableToObjectLiteral (Identifier ''missing'') spreadingFile = None"
    by (simp add: resolver_defs spreadingFile_def)
  note t = unresolvable_spread_is_skipped
    [OF missing, of "''{ ...a, ...missing, ...base, ping() {} }''"
       "[SpreadAssignment (Identifier ''a'')]"
       "[SpreadAssignment (Identifier ''base''), MethodDeclaration ''ping'' [] ''void'']"
       "''a.ts''"]
  have same: "extractRoutesWithSpreads spreadingLiteral spreadingFile ''a.ts'' =
       extractRoutesWithSpreads
         (ObjectLiteralExpression ''{ ...a, ...missing, ...base, ping() {} }''
            [SpreadAssignment (Identifier ''a''), SpreadAssignment (Identifier ''base''),
             MethodDeclaration ''ping'' [] ''void''])
         spreadingFile ''a.ts''"
    using t [THEN conjunct1] by (simp only: spreadingLiteral_def append.simps)
  have routes: "extractRoutesWithSpreads spreadingLiteral spreadingFile ''a.ts'' =
       [\<lparr>path = ''ping'', file' = ''a.ts'', paramText = [], returnType = ''void''\<rparr>,
        \<lparr>path = ''ping'', file' = ''a.ts'', paramText = [], returnType = ''void''\<rparr>]"
    by (simp add: resolver_defs aggregator_defs spreadingFile_def spreadingLiteral_def
        baseLiteral_def)
  have siblings: "spreadRoutes
         (flattenedRoutes (length (reachable spreadingLiteral spreadingFile)) spreadingFile ''a.ts'')
         spreadingFile
         [SpreadAssignment (Identifier ''a''), SpreadAssignment (Identifier ''base''),
          MethodDeclaration ''ping'' [] ''void'']
         {''{ ...a, ...missing, ...base, ping() {} }''} =
       Some ({''{ ping() {} }'', ''{ ...a, ...missing, ...base, ping() {} }''},
             extractRoutesFromObjectLiteral baseLiteral ''a.ts'')"
    by (simp add: resolver_defs aggregator_defs spreadingFile_def spreadingLiteral_def
        baseLiteral_def routeOf_def nameText_def)
  obtain visited fromSiblings where
    "spreadRoutes
         (flattenedRoutes (length (reachable spreadingLiteral spreadingFile)) spreadingFile ''a.ts'')
         spreadingFile
         [SpreadAssignment (Identifier ''a''), SpreadAssignment (Identifier ''base''),
          MethodDeclaration ''ping'' [] ''void'']
         {''{ ...a, ...missing, ...base, ping() {} }''} = Some (visited, fromSiblings)"
    and "extractRoutesWithSpreads spreadingLiteral spreadingFile ''a.ts'' =
       fromSiblings
       @ extractRoutesFromObjectLiteral
           (ObjectLiteralExpression ''{ ...a, ...missing, ...base, ping() {} }''
              [SpreadAssignment (Identifier ''a''), SpreadAssignment (Identifier ''base''),
               MethodDeclaration ''ping'' [] ''void''])
           ''a.ts''"
    using t [THEN conjunct2, THEN conjunct2, THEN conjunct2]
    unfolding spreadingLiteral_def append.simps by blast
  then have parts: "extractRoutesWithSpreads spreadingLiteral spreadingFile ''a.ts'' =
       extractRoutesFromObjectLiteral baseLiteral ''a.ts''
       @ extractRoutesFromObjectLiteral
           (ObjectLiteralExpression ''{ ...a, ...missing, ...base, ping() {} }''
              [SpreadAssignment (Identifier ''a''), SpreadAssignment (Identifier ''base''),
               MethodDeclaration ''ping'' [] ''void''])
           ''a.ts''"
    unfolding siblings by simp
  from missing same routes siblings parts show ?thesis by (intro conjI)
qed

section \<open>The file and the path of a route\<close>

lemma route_of_literal:
  assumes "r \<in> set (extractRoutesFromObjectLiteral obj fp)"
  shows "\<exists>t props p. obj = ObjectLiteralExpression t props \<and> p \<in> set props
           \<and> isRouteProperty p \<and> r = routeOf fp p"
proof (cases obj)
  case (ObjectLiteralExpression t props)
  with assms show ?thesis
    by (auto simp add: extractRoutes_objectLiteral)
qed (use assms in \<open>simp_all add: extractRoutesFromObjectLiteral_def\<close>)

lemma routeOf_path_file:
  "file' (routeOf fp p) = fp \<and> path (routeOf fp p) = stripQuotes (nameText p)
   \<and> (path (routeOf fp p) = [] \<longleftrightarrow>
        length (nameText p) \<le> 2 \<and> (\<forall>c\<in>set (nameText p). isQuote c))"
  by (simp add: routeOf_def stripQuotes_empty_iff)

lemma aggregated_routes:
  assumes "r \<in> set (extractRoutesWithSpreads obj sf fp)"
  shows "\<exists>lit\<in>set (reachable obj sf). r \<in> set (extractRoutesFromObjectLiteral lit fp)"
proof (cases "isObjectLiteralExpression obj")
  case False
  with assms show ?thesis by (simp add: extractRoutesWithSpreads_def)
next
  case True
  obtain v rs where
    out: "extractFromObject (extractFuel obj sf) sf fp obj ({}, []) = Some (v, rs)"
    and rs: "set rs \<subseteq> routesOf (set (reachable obj sf)) fp"
    using extractRoutesWithSpreads_aggregated [of obj sf "extractFuel obj sf" fp]
    by (auto simp add: aggregated_def)
  from out True have "extractRoutesWithSpreads obj sf fp = rs"
    by (simp add: extractRoutesWithSpreads_def)
  with assms rs show ?thesis by (auto simp add: routesOf_def)
qed

text \<open>
  Claim C7, as amended. Every route produced by the extractor or by the aggregation has
  its \<open>file\<close> field equal to the file path passed in, also when its literal was reached
  through an alias or a spread. Its path is the name of a method or function-valued
  property of a reachable object literal with one quote character dropped at each end;
  the path is empty exactly when that name is made of at most two quote characters.
\<close>

theorem routes_carry_file_and_stripped_name:
  "(\<forall>r\<in>set (extractRoutesWithSpreads obj sf fp).
       file' r = fp
       \<and> (\<exists>t props p. ObjectLiteralExpression t props \<in> set (reachable obj sf)
             \<and> p \<in> set props \<and> isRouteProperty p
             \<and> path r = stripQuotes (nameText p)
             \<and> (path r = [] \<longleftrightarrow>
                  length (nameText p) \<le> 2 \<and> (\<forall>c\<in>set (nameText p). isQuote c))))
   \<and> (\<forall>r\<in>set (extractRoutesFromObjectLiteral obj fp).
         file' r = fp
         \<and> (\<exists>p\<in>set (getProperties obj). isRouteProperty p
               \<and> path r = stripQuotes (nameText p)
               \<and> (path r = [] \<longleftrightarrow>
                    length (nameText p) \<le> 2 \<and> (\<forall>c\<in>set (nameText p). isQuote c))))"
proof (intro conjI ballI)
  fix r
  assume "r \<in> set (extractRoutesWithSpreads obj sf fp)"
  then obtain lit where lit: "lit \<in> set (reachable obj sf)"
    and r: "r \<in> set (extractRoutesFromObjectLiteral lit fp)"
    using aggregated_routes by blast
  from route_of_literal [OF r] obtain t props p where
    "lit = ObjectLiteralExpression t props" "p \<in> set props" "isRouteProperty p"
    "r = routeOf fp p" by blast
  with lit routeOf_path_file [of fp p]
  show "\<exists>t props p. ObjectLiteralExpression t props \<in> set (reachable obj sf)
             \<and> p \<in> set props \<and> isRouteProperty p
             \<and> path r = stripQuotes (nameText p)
             \<and> (path r = [] \<longleftrightarrow>
                  length (nameText p) \<le> 2 \<and> (\<forall>c\<in>set (nameText p). isQuote c))"
    by blast
  from \<open>r = routeOf fp p\<close> show "file' r = fp" by (simp add: routeOf_def)
next
  fix r
  assume r: "r \<in> set (extractRoutesFromObjectLiteral obj fp)"
  from route_of_literal [OF r] obtain t props p where
    "obj = ObjectLiteralExpression t props" "p \<in> set props" "isRouteProperty p"
    "r = routeOf fp p" by blast
  with routeOf_path_file [of fp p]
  show "\<exists>p\<in>set (getProperties obj). isRouteProperty p
               \<and> path r = stripQuotes (nameText p)
               \<and> (path r = [] \<longleftrightarrow>
                    length (nameText p) \<le> 2 \<and> (\<forall>c\<in>set (nameText p). isQuote c))"
    by auto
  from \<open>r = routeOf fp p\<close> show "file' r = fp" by (simp add: routeOf_def)
qed

theorem routes_carry_file_and_stripped_name_witness:
  "extractRoutesWithSpreads scenarioRoutes emptyFile ''a.ts'' =
     [\<lparr>path = ''foo'', file' = ''a.ts'', paramText = [], returnType = ''number''\<rparr>,
      \<lparr>path = ''foo/bar'', file' = ''a.ts'', paramText = ''{value}: {value:number}'',
        returnType = ''Promise<number>''\<rparr>]
   \<and> file' (hd (extractRoutesWithSpreads scenarioRoutes emptyFile ''a.ts'')) = ''a.ts''"
proof -
  have routes: "extractRoutesWithSpreads scenarioRoutes emptyFile ''a.ts'' =
     [\<lparr>path = ''foo'', file' = ''a.ts'', paramText = [], returnType = ''number''\<rparr>,
      \<lparr>path = ''foo/bar'', file' = ''a.ts'', paramText = ''{value}: {value:number}'',
        returnType = ''Promise<number>''\<rparr>]"
    by (simp add: resolver_defs aggregator_defs emptyFile_def scenarioRoutes_def quoted_def
        oneHandler_def doubleHandler_def valueParameter_def)
  then have "hd (extractRoutesWithSpreads scenarioRoutes emptyFile ''a.ts'')
      \<in> set (extractRoutesWithSpreads scenarioRoutes emptyFile ''a.ts'')"
    by simp
  then have "file' (hd (extractRoutesWithSpreads scenarioRoutes emptyFile ''a.ts'')) = ''a.ts''"
    using routes_carry_file_and_stripped_name [of scenarioRoutes emptyFile "''a.ts''",
        THEN conjunct1, rule_format, THEN conjunct1]
    by blast
  with routes show ?thesis by (intro conjI)
qed

text \<open>
  The claim as stated fails for a route keyed by the empty string literal: the path of
  \<^verbatim>\<open>{ '': () => 1 }\<close> is empty after the quotes are dropped.
\<close>

theorem empty_key_gives_empty_path:
  "extractRoutesFromObjectLiteral emptyKeyRoutes ''a.ts'' =
     [\<lparr>path = [], file' = ''a.ts'', paramText = [], returnType = ''number''\<rparr>]
   \<and> extractRoutesWithSpreads emptyKeyRoutes emptyFile ''a.ts'' =
     [\<lparr>path = [], file' = ''a.ts'', paramText = [], returnType = ''number''\<rparr>]"
  by (simp add: resolver_defs aggregator_defs emptyFile_def emptyKeyRoutes_def quoted_def
        oneHandler_def)

end
